theory Spec2Isabelle
  imports Main "HOL-Library.Char_ord"
begin

section \<open>Regular expressions as the source uses them\<close>

text \<open>
  The library is written as a family of JavaScript regular expressions (built by string
  interpolation in \<^verbatim>\<open>src/lib/index.js\<close>) plus a few string functions on top of them.
  A pattern is embedded as an abstract syntax tree with exactly the constructs that occur
  in the source: literal characters, character classes given by ranges, concatenation,
  alternation, quantifiers with a lower bound, an optional upper bound and a greediness
  flag, named capture groups, the negative lookahead \<^verbatim>\<open>(?!...)\<close> and the anchors
  \<^verbatim>\<open>^\<close> and \<^verbatim>\<open>$\<close>.
\<close>

datatype 'a regex =
    Eps
  | Chr 'a
  | Cls "('a \<times> 'a) list"
  | Seq "'a regex" "'a regex"
  | Alt "'a regex" "'a regex"
  | Rep nat "nat option" bool "'a regex"
  | Grp string "'a regex"
  | NotAhead "'a regex"
  | Bol
  | Eol

text \<open>
  A match state is the position reached in the input (\<open>endIndex\<close>), the input that is
  left from there on (\<open>rest\<close>) and the captures made so far; a group that did not take
  part in the match is \<open>None\<close> (JavaScript's \<^verbatim>\<open>undefined\<close>).
\<close>

record 'a state =
  endIndex :: nat
  rest :: "'a list"
  captures :: "string \<Rightarrow> 'a list option"

primrec names :: "'a regex \<Rightarrow> string list" where
  "names Eps = []"
| "names (Chr c) = []"
| "names (Cls rs) = []"
| "names (Seq a b) = names a @ names b"
| "names (Alt a b) = names a @ names b"
| "names (Rep lo hi g r) = names r"
| "names (Grp n r) = n # names r"
| "names (NotAhead r) = names r"
| "names Bol = []"
| "names Eol = []"

primrec rsize :: "'a regex \<Rightarrow> nat" where
  "rsize Eps = 0"
| "rsize (Chr c) = 0"
| "rsize (Cls rs) = 0"
| "rsize (Seq a b) = Suc (rsize a + rsize b)"
| "rsize (Alt a b) = Suc (rsize a + rsize b)"
| "rsize (Rep lo hi g r) = Suc (rsize r)"
| "rsize (Grp n r) = Suc (rsize r)"
| "rsize (NotAhead r) = Suc (rsize r)"
| "rsize Bol = 0"
| "rsize Eol = 0"

fun rmin :: "'a regex \<Rightarrow> nat" where
  "rmin (Rep lo hi g r) = lo"
| "rmin r = 0"

definition inClass :: "('a::linorder \<times> 'a) list \<Rightarrow> 'a \<Rightarrow> bool" where
  "inClass rs c = list_ex (\<lambda>(lo, hi). lo \<le> c \<and> c \<le> hi) rs"

definition resetCaptures :: "string list \<Rightarrow> 'a state \<Rightarrow> 'a state" where
  "resetCaptures ns x = x\<lparr>captures := (\<lambda>k. if k \<in> set ns then None else captures x k)\<rparr>"

definition decMax :: "nat option \<Rightarrow> nat option" where
  "decMax hi = (case hi of None \<Rightarrow> None | Some n \<Rightarrow> Some (n - 1))"

text \<open>
  The backtracking matcher of ECMAScript, written as the list of all states a pattern can
  reach from a state, in the order in which backtracking tries them; the first element
  is what a match returns. A quantifier follows the language's RepeatMatcher: it stops
  at an upper bound of zero, clears the captures of its body before each iteration,
  rejects an iteration that consumed nothing once the lower bound is met, and tries
  another iteration before (greedy) or after (lazy) stopping. The test for an empty
  iteration compares what is left of the input; a match never moves backwards
  (\<open>matcher_suffix\<close> below), so "not shorter" is "equal".
\<close>

function (sequential) matcher :: "'a::linorder regex \<Rightarrow> 'a state \<Rightarrow> 'a state list" where
  "matcher Eps x = [x]"
| "matcher (Chr c) x =
     (case rest x of
        [] \<Rightarrow> []
      | d # t \<Rightarrow> if d = c then [x\<lparr>endIndex := Suc (endIndex x), rest := t\<rparr>] else [])"
| "matcher (Cls rs) x =
     (case rest x of
        [] \<Rightarrow> []
      | d # t \<Rightarrow> if inClass rs d then [x\<lparr>endIndex := Suc (endIndex x), rest := t\<rparr>] else [])"
| "matcher (Seq a b) x = concat (map (matcher b) (matcher a x))"
| "matcher (Alt a b) x = matcher a x @ matcher b x"
| "matcher (Rep lo hi g r) x =
     (if hi = Some 0 then [x]
      else
        let again =
          concat (map (\<lambda>y. if lo = 0 \<and> length (rest x) \<le> length (rest y) then []
                           else matcher (Rep (lo - 1) (decMax hi) g r) y)
                      (matcher r (resetCaptures (names r) x)))
        in if lo \<noteq> 0 then again else if g then again @ [x] else x # again)"
| "matcher (Grp n r) x =
     map (\<lambda>y. y\<lparr>captures :=
                 (captures y)(n \<mapsto> take (length (rest x) - length (rest y)) (rest x))\<rparr>)
         (matcher r x)"
| "matcher (NotAhead r) x = (if matcher r x = [] then [x] else [])"
| "matcher Bol x = (if endIndex x = 0 then [x] else [])"
| "matcher Eol x = (if rest x = [] then [x] else [])"
  by pat_completeness auto
termination
  by (relation "measures [\<lambda>(r, x). rsize r, \<lambda>(r, x). rmin r, \<lambda>(r, x). length (rest x)]") auto

declare matcher.simps(6) [simp del]

text \<open>
  \<^verbatim>\<open>RegExp.prototype.exec\<close> of a pattern without the global or sticky flag: the match
  is tried at index 0, then at 1, and so on up to the end of the input; the first start
  index with a match wins, and there is no match (\<^verbatim>\<open>null\<close>) when all fail.
\<close>

fun exec_from :: "'a::linorder regex \<Rightarrow> nat \<Rightarrow> 'a list \<Rightarrow> 'a state option" where
  "exec_from r i [] =
     (case matcher r \<lparr>endIndex = i, rest = [], captures = (\<lambda>k. None)\<rparr> of
        y # ys \<Rightarrow> Some y
      | [] \<Rightarrow> None)"
| "exec_from r i (d # t) =
     (case matcher r \<lparr>endIndex = i, rest = d # t, captures = (\<lambda>k. None)\<rparr> of
        y # ys \<Rightarrow> Some y
      | [] \<Rightarrow> exec_from r (Suc i) t)"

definition exec :: "'a::linorder regex \<Rightarrow> 'a list \<Rightarrow> 'a state option" where
  "exec r s = exec_from r 0 s"

definition test :: "'a::linorder regex \<Rightarrow> 'a list \<Rightarrow> bool" where
  "test r s = (exec r s \<noteq> None)"

text \<open>Concatenations and alternations of more than two parts nest to the right.\<close>

fun cat :: "'a regex list \<Rightarrow> 'a regex" where
  "cat [] = Eps"
| "cat [r] = r"
| "cat (r # rs) = Seq r (cat rs)"

fun alts :: "'a regex list \<Rightarrow> 'a regex" where
  "alts [] = Eps"
| "alts [r] = r"
| "alts (r # rs) = Alt r (alts rs)"

definition Opt :: "'a regex \<Rightarrow> 'a regex" where
  "Opt r = Rep 0 (Some 1) True r"

definition Star :: "'a regex \<Rightarrow> 'a regex" where
  "Star r = Rep 0 None True r"

definition LazyStar :: "'a regex \<Rightarrow> 'a regex" where
  "LazyStar r = Rep 0 None False r"

definition Plus :: "'a regex \<Rightarrow> 'a regex" where
  "Plus r = Rep 1 None True r"

definition one :: "'a \<Rightarrow> 'a \<times> 'a" where
  "one c = (c, c)"

section \<open>The grammar of RFC 3986\<close>

text \<open>
  The URI patterns have no flag, so they match UTF-16 code units one by one. Every class
  and literal in them is ASCII, so a string with a code unit above 255 is rejected by all
  of them; the strings of the URI functions are therefore lists of 8-bit characters.
  The definitions follow the constants of the source one by one. Three parts that the
  source writes inline have a name here: \<open>h16Colon\<close> for \<^verbatim>\<open>(?:h16:)\<close>, \<open>colons\<close>
  for \<^verbatim>\<open>::\<close>, and \<open>hierPart\<close> for the alternative
  \<^verbatim>\<open>(?://authority path|pathWithoutAuthority)\<close> shared by the three top patterns.
  A constant of the source whose name is also a field of the components has the suffix
  \<open>_re\<close>.
\<close>

subsection \<open>Common\<close>

definition digit :: "char regex" where
  "digit = Cls [(CHR ''0'', CHR ''9'')]"

definition hexdig :: "char regex" where
  "hexdig = Cls [(CHR ''a'', CHR ''f''), (CHR ''A'', CHR ''F''), (CHR ''0'', CHR ''9'')]"

definition unreservedClass :: "(char \<times> char) list" where
  "unreservedClass =
     [(CHR ''a'', CHR ''z''), (CHR ''A'', CHR ''Z''), (CHR ''0'', CHR ''9''),
      one CHR ''-'', one CHR ''.'', one CHR ''_'', one CHR ''~'']"

definition unreserved :: "char regex" where
  "unreserved = Cls unreservedClass"

definition subDelims :: "char regex" where
  "subDelims =
     Cls [one CHR ''!'', one CHR ''$'', one CHR ''&'', one (CHR 0x27), one CHR ''('',
          one CHR '')'', one CHR ''*'', one CHR ''+'', one CHR '','', one CHR '';'',
          one CHR ''='']"

definition pctEncoded :: "char regex" where
  "pctEncoded = cat [Chr CHR ''%'', hexdig, hexdig]"

definition decOctet :: "char regex" where
  "decOctet =
     alts [digit,
           cat [Cls [(CHR ''1'', CHR ''9'')], digit],
           cat [Chr CHR ''1'', digit, digit],
           cat [Chr CHR ''2'', Cls [(CHR ''0'', CHR ''4'')], digit],
           cat [Chr CHR ''2'', Chr CHR ''5'', Cls [(CHR ''0'', CHR ''5'')]]]"

definition ipV4Address :: "char regex" where
  "ipV4Address =
     cat [decOctet, Chr CHR ''.'', decOctet, Chr CHR ''.'', decOctet, Chr CHR ''.'', decOctet]"

definition h16 :: "char regex" where
  "h16 = Rep 1 (Some 4) True hexdig"

definition ls32 :: "char regex" where
  "ls32 = Alt (cat [h16, Chr CHR '':'', h16]) ipV4Address"

definition h16Colon :: "char regex" where
  "h16Colon = Seq h16 (Chr CHR '':'')"

definition colons :: "char regex" where
  "colons = Seq (Chr CHR '':'') (Chr CHR '':'')"

definition ipV6Address :: "char regex" where
  "ipV6Address =
     alts [cat [Rep 6 (Some 6) True h16Colon, ls32],
           cat [colons, Rep 5 (Some 5) True h16Colon, ls32],
           cat [Opt h16, colons, Rep 4 (Some 4) True h16Colon, ls32],
           cat [Opt (Seq (Rep 0 (Some 1) True h16Colon) h16), colons,
                Rep 3 (Some 3) True h16Colon, ls32],
           cat [Opt (Seq (Rep 0 (Some 2) True h16Colon) h16), colons,
                Rep 2 (Some 2) True h16Colon, ls32],
           cat [Opt (Seq (Rep 0 (Some 3) True h16Colon) h16), colons,
                Rep 1 (Some 1) True h16Colon, ls32],
           cat [Opt (Seq (Rep 0 (Some 4) True h16Colon) h16), colons, ls32],
           cat [Opt (Seq (Rep 0 (Some 5) True h16Colon) h16), colons, h16],
           cat [Opt (Seq (Rep 0 (Some 6) True h16Colon) h16), colons]]"

definition ipVFuture :: "char regex" where
  "ipVFuture =
     cat [Chr CHR ''v'', Plus hexdig, Chr CHR ''.'',
          Plus (alts [unreserved, subDelims, Chr CHR '':''])]"

definition ipLiteral :: "char regex" where
  "ipLiteral = cat [Chr CHR ''['', Alt ipV6Address ipVFuture, Chr CHR '']'']"

definition scheme_re :: "char regex" where
  "scheme_re =
     Grp ''scheme''
       (Seq (Cls [(CHR ''a'', CHR ''z''), (CHR ''A'', CHR ''Z'')])
            (Star (Cls [(CHR ''a'', CHR ''z''), (CHR ''A'', CHR ''Z''), (CHR ''0'', CHR ''9''),
                        one CHR ''-'', one CHR ''+'', one CHR ''.''])))"

definition port_re :: "char regex" where
  "port_re = Seq (Chr CHR '':'') (Grp ''port'' (Star digit))"

subsection \<open>URI\<close>

definition regName :: "char regex" where
  "regName = LazyStar (alts [unreserved, pctEncoded, subDelims])"

definition host_re :: "char regex" where
  "host_re = Grp ''host'' (alts [ipLiteral, ipV4Address, regName])"

definition userinfo_re :: "char regex" where
  "userinfo_re = Grp ''userinfo'' (Star (alts [unreserved, pctEncoded, subDelims, Chr CHR '':'']))"

definition pchar :: "char regex" where
  "pchar = alts [unreserved, pctEncoded, subDelims, Chr CHR '':'', Chr CHR ''@'']"

definition segment :: "char regex" where
  "segment = LazyStar pchar"

definition pathAbEmpty :: "char regex" where
  "pathAbEmpty = Star (Seq (Chr CHR ''/'') segment)"

definition authority_re :: "char regex" where
  "authority_re =
     Grp ''authority'' (cat [Opt (Seq userinfo_re (Chr CHR ''@'')), host_re, Opt port_re])"

definition path_re :: "char regex" where
  "path_re = Grp ''path'' pathAbEmpty"

definition pathWithoutAuthority :: "char regex" where
  "pathWithoutAuthority =
     Grp ''path2'' (cat [NotAhead (Seq (Chr CHR ''/'') (Chr CHR ''/'')), segment, pathAbEmpty])"

definition query_re :: "char regex" where
  "query_re =
     Opt (Seq (Chr CHR ''?'') (Grp ''query'' (Star (alts [pchar, Chr CHR ''/'', Chr CHR ''?'']))))"

definition fragment_re :: "char regex" where
  "fragment_re =
     Opt (Seq (Chr CHR ''#'')
              (Grp ''fragment'' (Star (alts [pchar, Chr CHR ''/'', Chr CHR ''?'']))))"

definition hierPart :: "char regex" where
  "hierPart =
     Alt (cat [Chr CHR ''/'', Chr CHR ''/'', authority_re, path_re]) pathWithoutAuthority"

definition uri :: "char regex" where
  "uri = cat [Bol, scheme_re, Chr CHR '':'', hierPart, query_re, fragment_re, Eol]"

definition uriReference :: "char regex" where
  "uriReference =
     cat [Bol, Alt (Seq scheme_re (Chr CHR '':'')) Eps, hierPart, query_re, fragment_re, Eol]"

definition absoluteUri :: "char regex" where
  "absoluteUri = cat [Bol, scheme_re, Chr CHR '':'', hierPart, query_re, Eol]"

section \<open>Parsing\<close>

text \<open>
  The parsed components are the named groups of the match. The declarations of
  \<^verbatim>\<open>src/lib/index.d.ts\<close> give them as objects with optional fields; a field that is
  \<^verbatim>\<open>undefined\<close> is \<open>None\<close>. The single error the library raises itself is
  \<open>InvalidIdentifier\<close> with the name of the production and the offending input;
  \<open>TypeError\<close> stands for the run-time error of calling a string method on
  \<^verbatim>\<open>undefined\<close>.
\<close>

datatype 'a error = InvalidIdentifier string "'a list" | TypeError

record 'a components =
  scheme :: "'a list option"
  authority :: "'a list option"
  userinfo :: "'a list option"
  host :: "'a list option"
  port :: "'a list option"
  path :: "'a list option"
  query :: "'a list option"
  fragment :: "'a list option"

definition componentsOf :: "(string \<Rightarrow> 'a list option) \<Rightarrow> 'a components" where
  "componentsOf groups =
     \<lparr>scheme = groups ''scheme'', authority = groups ''authority'',
      userinfo = groups ''userinfo'', host = groups ''host'', port = groups ''port'',
      path = groups ''path'', query = groups ''query'', fragment = groups ''fragment''\<rparr>"

definition createParser ::
    "'a::linorder regex \<Rightarrow> string \<Rightarrow> 'a list \<Rightarrow> 'a error + 'a components" where
  "createParser pattern type value =
     (case exec pattern value of
        None \<Rightarrow> Inl (InvalidIdentifier type value)
      | Some match \<Rightarrow>
          let groups = captures match;
              groups = (if groups ''authority'' = None
                        then groups(''path'' := groups ''path2'') else groups);
              groups = groups(''path2'' := None)
          in Inr (componentsOf groups))"

definition isUri :: "string \<Rightarrow> bool" where
  "isUri = test uri"

definition isUriReference :: "string \<Rightarrow> bool" where
  "isUriReference = test uriReference"

definition isAbsoluteUri :: "string \<Rightarrow> bool" where
  "isAbsoluteUri = test absoluteUri"

definition parseUri :: "string \<Rightarrow> char error + char components" where
  "parseUri = createParser uri ''URI''"

definition parseUriReference :: "string \<Rightarrow> char error + char components" where
  "parseUriReference = createParser uriReference ''URI-reference''"

definition parseAbsoluteUri :: "string \<Rightarrow> char error + char components" where
  "parseAbsoluteUri = createParser absoluteUri ''absolute-URI''"

section \<open>The grammar of RFC 3987\<close>

text \<open>
  The IRI patterns carry the \<^verbatim>\<open>u\<close> flag, so they match code points; an input is the
  list of its code points, each an integer. The patterns of the common part are the same as for URIs,
  read over code points.
\<close>

definition cp :: "char regex \<Rightarrow> int regex" where
  "cp r = map_regex of_char r"

definition iunreserved :: "int regex" where
  "iunreserved =
     Cls (map (map_prod of_char of_char)
            [(CHR ''a'', CHR ''z''), (CHR ''A'', CHR ''Z''), (CHR ''0'', CHR ''9''),
             one CHR ''-'', one CHR ''.'', one CHR ''_'', one CHR ''~'']
          @ [(0xA0, 0xD7FF), (0xF900, 0xFDCF), (0xFDF0, 0xFFEF), (0x10000, 0x1FFFD),
             (0x20000, 0x2FFFD), (0x30000, 0x3FFFD), (0x40000, 0x4FFFD),
             (0x50000, 0x5FFFD), (0x60000, 0x6FFFD), (0x70000, 0x7FFFD),
             (0x80000, 0x8FFFD), (0x90000, 0x9FFFD), (0xA0000, 0xAFFFD),
             (0xB0000, 0xBFFFD), (0xC0000, 0xCFFFD), (0xD0000, 0xDFFFD),
             (0xE1000, 0xEFFFD)])"

definition iprivate :: "int regex" where
  "iprivate = Cls [(0xE000, 0xF8FF), (0xF0000, 0xFFFFD), (0x100000, 0x10FFFD)]"

definition iregName :: "int regex" where
  "iregName = LazyStar (alts [iunreserved, cp pctEncoded, cp subDelims])"

definition ihost :: "int regex" where
  "ihost = Grp ''host'' (alts [cp ipLiteral, cp ipV4Address, iregName])"

definition iuserinfo :: "int regex" where
  "iuserinfo =
     Grp ''userinfo''
       (Star (alts [iunreserved, cp pctEncoded, cp subDelims, Chr (of_char CHR '':'')]))"

definition ipchar :: "int regex" where
  "ipchar =
     alts [iunreserved, cp pctEncoded, cp subDelims, Chr (of_char CHR '':''),
           Chr (of_char CHR ''@'')]"

definition isegment :: "int regex" where
  "isegment = LazyStar ipchar"

definition ipathAbEmpty :: "int regex" where
  "ipathAbEmpty = Star (Seq (Chr (of_char CHR ''/'')) isegment)"

definition iauthority :: "int regex" where
  "iauthority =
     Grp ''authority''
       (cat [Opt (Seq iuserinfo (Chr (of_char CHR ''@''))), ihost, Opt (cp port_re)])"

definition ipath :: "int regex" where
  "ipath = Grp ''path'' ipathAbEmpty"

definition ipathWithoutAuthority :: "int regex" where
  "ipathWithoutAuthority =
     Grp ''path2''
       (cat [NotAhead (Seq (Chr (of_char CHR ''/'')) (Chr (of_char CHR ''/''))),
             isegment, ipathAbEmpty])"

definition iquery :: "int regex" where
  "iquery =
     Opt (Seq (Chr (of_char CHR ''?''))
              (Grp ''query''
                 (Star (alts [ipchar, iprivate, Chr (of_char CHR ''/''),
                              Chr (of_char CHR ''?'')]))))"

definition ifragment :: "int regex" where
  "ifragment =
     Opt (Seq (Chr (of_char CHR ''#''))
              (Grp ''fragment''
                 (Star (alts [ipchar, Chr (of_char CHR ''/''), Chr (of_char CHR ''?'')]))))"

definition ihierPart :: "int regex" where
  "ihierPart =
     Alt (cat [Chr (of_char CHR ''/''), Chr (of_char CHR ''/''), iauthority, ipath])
         ipathWithoutAuthority"

definition iri :: "int regex" where
  "iri =
     cat [Bol, cp scheme_re, Chr (of_char CHR '':''), ihierPart, iquery, ifragment, Eol]"

definition iriReference :: "int regex" where
  "iriReference =
     cat [Bol, Alt (Seq (cp scheme_re) (Chr (of_char CHR '':''))) Eps, ihierPart, iquery,
          ifragment, Eol]"

definition absoluteIri :: "int regex" where
  "absoluteIri = cat [Bol, cp scheme_re, Chr (of_char CHR '':''), ihierPart, iquery, Eol]"

definition isIri :: "int list \<Rightarrow> bool" where
  "isIri = test iri"

definition isIriReference :: "int list \<Rightarrow> bool" where
  "isIriReference = test iriReference"

definition isAbsoluteIri :: "int list \<Rightarrow> bool" where
  "isAbsoluteIri = test absoluteIri"

definition parseIri :: "int list \<Rightarrow> int error + int components" where
  "parseIri = createParser iri ''IRI''"

definition parseIriReference :: "int list \<Rightarrow> int error + int components" where
  "parseIriReference = createParser iriReference ''IRI-reference''"

definition parseAbsoluteIri :: "int list \<Rightarrow> int error + int components" where
  "parseAbsoluteIri = createParser absoluteIri ''absolute-IRI''"

section \<open>String functions of the host language\<close>

text \<open>
  \<^verbatim>\<open>indexOf\<close> and \<^verbatim>\<open>lastIndexOf\<close> return \<^verbatim>\<open>-1\<close> when the character does not
  occur; here that is \<open>None\<close>. \<^verbatim>\<open>s.slice(i)\<close> is \<open>drop i s\<close> and
  \<^verbatim>\<open>s.slice(0, i)\<close> is \<open>take i s\<close>.
\<close>

fun findIndex :: "'a \<Rightarrow> 'a list \<Rightarrow> nat option" where
  "findIndex c [] = None"
| "findIndex c (d # t) = (if d = c then Some 0 else map_option Suc (findIndex c t))"

definition indexOf :: "'a list \<Rightarrow> 'a \<Rightarrow> nat \<Rightarrow> nat option" where
  "indexOf s c i = map_option (\<lambda>k. k + i) (findIndex c (drop i s))"

definition lastIndexOf :: "'a list \<Rightarrow> 'a \<Rightarrow> nat option" where
  "lastIndexOf s c = map_option (\<lambda>k. length s - 1 - k) (findIndex c (rev s))"

definition startsWith :: "'a list \<Rightarrow> 'a list \<Rightarrow> bool" where
  "startsWith s p = (take (length p) s = p)"

text \<open>
  Case conversion is applied by the source to schemes, authorities and percent-encoded
  triplets of URIs only, which the grammar keeps within ASCII; there it exchanges the two
  ranges of letters and leaves every other character alone.
\<close>

definition toLowerChar :: "char \<Rightarrow> char" where
  "toLowerChar c =
     (if CHR ''A'' \<le> c \<and> c \<le> CHR ''Z'' then char_of (of_char c + (32::nat)) else c)"

definition toUpperChar :: "char \<Rightarrow> char" where
  "toUpperChar c =
     (if CHR ''a'' \<le> c \<and> c \<le> CHR ''z'' then char_of (of_char c - (32::nat)) else c)"

definition toLowerCase :: "string \<Rightarrow> string" where
  "toLowerCase s = map toLowerChar s"

definition toUpperCase :: "string \<Rightarrow> string" where
  "toUpperCase s = map toUpperChar s"

text \<open>
  \<^verbatim>\<open>parseInt(s, 16)\<close> reads the longest prefix of hexadecimal digits and is
  \<^verbatim>\<open>NaN\<close> (\<open>None\<close>) when there is none. (Leading blanks, a sign and a
  \<^verbatim>\<open>0x\<close> prefix, which it would also accept, cannot occur in the two digits of a
  triplet.) \<^verbatim>\<open>String.fromCharCode\<close> turns \<^verbatim>\<open>NaN\<close> into code 0.
\<close>

definition hexValue :: "char \<Rightarrow> nat option" where
  "hexValue c =
     (if CHR ''0'' \<le> c \<and> c \<le> CHR ''9'' then Some (of_char c - 48)
      else if CHR ''a'' \<le> c \<and> c \<le> CHR ''f'' then Some (of_char c - 87)
      else if CHR ''A'' \<le> c \<and> c \<le> CHR ''F'' then Some (of_char c - 55)
      else None)"

fun hexDigits :: "nat option \<Rightarrow> string \<Rightarrow> nat option" where
  "hexDigits acc [] = acc"
| "hexDigits acc (c # t) =
     (case hexValue c of
        None \<Rightarrow> acc
      | Some d \<Rightarrow> hexDigits (Some (16 * (case acc of None \<Rightarrow> 0 | Some a \<Rightarrow> a) + d)) t)"

definition parseInt16 :: "string \<Rightarrow> nat option" where
  "parseInt16 s = hexDigits None s"

definition fromCharCode :: "nat option \<Rightarrow> string" where
  "fromCharCode n = (case n of None \<Rightarrow> [char_of (0::nat)] | Some k \<Rightarrow> [char_of k])"

text \<open>
  \<^verbatim>\<open>s.replaceAll(pattern, f)\<close> for a pattern with the global flag: the matches are
  found from left to right, each search starting where the previous match ended, and
  each is replaced by what \<open>f\<close> returns for it. After an empty match the search moves on
  by one character.
\<close>

function replaceAllFrom ::
    "'a::linorder regex \<Rightarrow> ('a list \<Rightarrow> 'a list) \<Rightarrow> nat \<Rightarrow> 'a list \<Rightarrow> 'a list" where
  "replaceAllFrom r f i s =
     (case matcher r \<lparr>endIndex = i, rest = s, captures = (\<lambda>k. None)\<rparr> of
        [] \<Rightarrow> (case s of [] \<Rightarrow> [] | d # t \<Rightarrow> d # replaceAllFrom r f (Suc i) t)
      | y # ys \<Rightarrow>
          if length (rest y) < length s
          then f (take (length s - length (rest y)) s) @ replaceAllFrom r f (endIndex y) (rest y)
          else (case s of [] \<Rightarrow> f [] | d # t \<Rightarrow> f [] @ d # replaceAllFrom r f (Suc i) t))"
  by pat_completeness auto
termination
  by (relation "measure (\<lambda>(r, f, i, s). length s)") auto

declare replaceAllFrom.simps [simp del]

definition replaceAll :: "'a list \<Rightarrow> 'a::linorder regex \<Rightarrow> ('a list \<Rightarrow> 'a list) \<Rightarrow> 'a list" where
  "replaceAll s r f = replaceAllFrom r f 0 s"

section \<open>Dot-segment removal\<close>

text \<open>
  The three tests are the source's patterns \<^verbatim>\<open>/^\.?\.\/|^\.\.?$/\<close>,
  \<^verbatim>\<open>/^\/\.(?:\/|$)/\<close> and \<^verbatim>\<open>/^\/\.\.(?:\/|$)/\<close>. The path argument is called
  \<open>p\<close>, since \<open>path\<close> is a field of the components.
\<close>

definition isNoOpSegment :: "char regex" where
  "isNoOpSegment =
     Alt (cat [Bol, Opt (Chr CHR ''.''), Chr CHR ''.'', Chr CHR ''/''])
         (cat [Bol, Chr CHR ''.'', Opt (Chr CHR ''.''), Eol])"

definition isSlashDotSegment :: "char regex" where
  "isSlashDotSegment = cat [Bol, Chr CHR ''/'', Chr CHR ''.'', Alt (Chr CHR ''/'') Eol]"

definition isUpSegment :: "char regex" where
  "isUpSegment =
     cat [Bol, Chr CHR ''/'', Chr CHR ''.'', Chr CHR ''.'', Alt (Chr CHR ''/'') Eol]"

definition removeSegment :: "string \<Rightarrow> string" where
  "removeSegment p =
     (case indexOf p CHR ''/'' 1 of
        None \<Rightarrow> []
      | Some position \<Rightarrow> CHR ''/'' # drop (position + 1) p)"

definition replaceSegmentWithSlash :: "string \<Rightarrow> string" where
  "replaceSegmentWithSlash p =
     (case indexOf p CHR ''/'' 1 of
        None \<Rightarrow> ''/''
      | Some position \<Rightarrow> CHR ''/'' # drop (position + 1) p)"

definition removeLastSegment :: "string \<Rightarrow> string" where
  "removeLastSegment p =
     (case lastIndexOf p CHR ''/'' of
        None \<Rightarrow> p
      | Some position \<Rightarrow> take position p)"

definition getSegment :: "string \<Rightarrow> string" where
  "getSegment p =
     (case indexOf p CHR ''/'' 1 of
        None \<Rightarrow> p
      | Some position \<Rightarrow> take position p)"

text \<open>
  The loop of \<open>removeDotSegments\<close> ends because every branch shortens the remaining
  path: an index found from position 1 on is at least 1, and a path that passes the test
  for \<open>/.\<close> or \<open>/..\<close> has at least two characters.
\<close>

lemma findIndex_less: "findIndex c s = Some k \<Longrightarrow> k < length s"
  by (induction s arbitrary: k) (auto split: if_splits)

lemma indexOf_bounds: "indexOf s c i = Some k \<Longrightarrow> i \<le> k \<and> k < length s"
  by (auto simp: indexOf_def dest!: findIndex_less)

lemma removeSegment_shorter: "p \<noteq> [] \<Longrightarrow> length (removeSegment p) < length p"
  by (auto simp: removeSegment_def split: option.splits dest!: indexOf_bounds)

lemma exec_from_Bol_later: "exec_from (Seq Bol r) (Suc i) s = None"
  by (induction s arbitrary: i) simp_all

lemma exec_Bol:
  "exec (Seq Bol r) s =
     (case matcher r \<lparr>endIndex = 0, rest = s, captures = (\<lambda>k. None)\<rparr> of
        [] \<Rightarrow> None
      | y # ys \<Rightarrow> Some y)"
  by (cases s) (simp_all add: exec_def exec_from_Bol_later split: list.splits)

lemma isSlashDotSegment_prefix:
  "test isSlashDotSegment p \<Longrightarrow> \<exists>t. p = CHR ''/'' # CHR ''.'' # t"
  by (simp add: test_def isSlashDotSegment_def exec_Bol split: list.splits if_splits)

lemma isUpSegment_prefix:
  "test isUpSegment p \<Longrightarrow> \<exists>t. p = CHR ''/'' # CHR ''.'' # CHR ''.'' # t"
  by (simp add: test_def isUpSegment_def exec_Bol split: list.splits if_splits)

lemma replaceSegmentWithSlash_shorter:
  "2 \<le> length p \<Longrightarrow> length (replaceSegmentWithSlash p) < length p"
  by (auto simp: replaceSegmentWithSlash_def split: option.splits dest!: indexOf_bounds)

function removeDotSegmentsLoop :: "string \<Rightarrow> string \<Rightarrow> string" where
  "removeDotSegmentsLoop p output =
     (if length p > 0 then
        (if test isNoOpSegment p then removeDotSegmentsLoop (removeSegment p) output
         else if test isSlashDotSegment p
           then removeDotSegmentsLoop (replaceSegmentWithSlash p) output
         else if test isUpSegment p
           then removeDotSegmentsLoop (replaceSegmentWithSlash p) (removeLastSegment output)
         else removeDotSegmentsLoop (removeSegment p) (output @ getSegment p))
      else output)"
  by pat_completeness auto
termination
proof (relation "measure (\<lambda>(p, output). length p)", goal_cases)
  case 1
  show ?case by simp
next
  case (2 p out)
  then show ?case by (simp add: removeSegment_shorter)
next
  case (3 p out)
  then obtain t where "p = CHR ''/'' # CHR ''.'' # t"
    using isSlashDotSegment_prefix by blast
  then have "2 \<le> length p" by simp
  then show ?case by (simp add: replaceSegmentWithSlash_shorter)
next
  case (4 p out)
  then obtain t where "p = CHR ''/'' # CHR ''.'' # CHR ''.'' # t"
    using isUpSegment_prefix by blast
  then have "2 \<le> length p" by simp
  then show ?case by (simp add: replaceSegmentWithSlash_shorter)
next
  case (5 p out)
  then show ?case by (simp add: removeSegment_shorter)
qed

declare removeDotSegmentsLoop.simps [simp del]

definition removeDotSegments :: "string \<Rightarrow> string" where
  "removeDotSegments p = removeDotSegmentsLoop p []"

section \<open>Percent-encoding normalization\<close>

definition percentEncodedToChar :: "(string \<Rightarrow> bool) \<Rightarrow> string \<Rightarrow> string" where
  "percentEncodedToChar isAllowed match =
     (let charCode = parseInt16 (drop 1 match);
          char = fromCharCode charCode
      in if isAllowed char then char else toUpperCase match)"

definition isAllowedUnescapedInPath :: "string \<Rightarrow> bool" where
  "isAllowedUnescapedInPath =
     test (alts [unreserved, subDelims, Cls [one CHR '':'', one CHR ''@'']])"

definition isAllowedUnescapedInQuery :: "string \<Rightarrow> bool" where
  "isAllowedUnescapedInQuery =
     test (alts [unreserved, subDelims,
                 Cls [one CHR '':'', one CHR ''@'', one CHR ''/'', one CHR ''?'']])"

definition normalizePath :: "(string \<Rightarrow> bool) \<Rightarrow> string \<Rightarrow> string" where
  "normalizePath isAllowed seg =
     replaceAll (removeDotSegments seg) pctEncoded (percentEncodedToChar isAllowed)"

definition normalizeQuery :: "(string \<Rightarrow> bool) \<Rightarrow> string \<Rightarrow> string" where
  "normalizeQuery isAllowed q = replaceAll q pctEncoded (percentEncodedToChar isAllowed)"

section \<open>Strategies, composition and the public operations\<close>

record strategy =
  parseAbsolute :: "string \<Rightarrow> char error + char components"
  parseReference :: "string \<Rightarrow> char error + char components"
  parse :: "string \<Rightarrow> char error + char components"
  stNormalizePath :: "string \<Rightarrow> string"
  stNormalizeQuery :: "string \<Rightarrow> string"
  stNormalizeFragment :: "string \<Rightarrow> string"

definition uriStrategy :: strategy where
  "uriStrategy =
     \<lparr>parseAbsolute = parseAbsoluteUri,
      parseReference = parseUriReference,
      parse = parseUri,
      stNormalizePath = normalizePath isAllowedUnescapedInPath,
      stNormalizeQuery = normalizeQuery isAllowedUnescapedInQuery,
      stNormalizeFragment = normalizeQuery isAllowedUnescapedInQuery\<rparr>"

text \<open>
  \<^verbatim>\<open>components.scheme.toLowerCase()\<close> and the path normalizer are applied without a
  check, so a missing scheme or path is a \<open>TypeError\<close>.
\<close>

definition composeIdentifier :: "strategy \<Rightarrow> char components \<Rightarrow> char error + string" where
  "composeIdentifier st c =
     (case scheme c of
        None \<Rightarrow> Inl TypeError
      | Some s \<Rightarrow>
          (case path c of
             None \<Rightarrow> Inl TypeError
           | Some p \<Rightarrow>
               Inr (toLowerCase s @ '':''
                    @ (case authority c of None \<Rightarrow> [] | Some a \<Rightarrow> ''//'' @ toLowerCase a)
                    @ stNormalizePath st p
                    @ (case query c of None \<Rightarrow> [] | Some q \<Rightarrow> ''?'' @ stNormalizeQuery st q)
                    @ (case fragment c of
                         None \<Rightarrow> []
                       | Some f \<Rightarrow> ''#'' @ stNormalizeFragment st f))))"

text \<open>
  In \<^verbatim>\<open>mergePaths\<close> the test \<^verbatim>\<open>base.authority && ...\<close> takes an authority that is
  absent or the empty string as false.
\<close>

definition mergePaths :: "string \<Rightarrow> char components \<Rightarrow> char error + string" where
  "mergePaths p base =
     (if (case authority base of None \<Rightarrow> False | Some a \<Rightarrow> a \<noteq> []) \<and> path base = Some []
      then Inr (''/'' @ p)
      else (case path base of
              None \<Rightarrow> Inl TypeError
            | Some bp \<Rightarrow>
                (case lastIndexOf bp CHR ''/'' of
                   None \<Rightarrow> Inr p
                 | Some position \<Rightarrow> Inr (take (position + 1) bp @ p))))"

definition resolveReference :: "strategy \<Rightarrow> string \<Rightarrow> string \<Rightarrow> char error + string" where
  "resolveReference st reference base =
     (case parseReference st reference of
        Inl e \<Rightarrow> Inl e
      | Inr rc \<Rightarrow>
          if scheme rc = None then
            (case parseAbsolute st base of
               Inl e \<Rightarrow> Inl e
             | Inr bc \<Rightarrow>
                 let rc1 = rc\<lparr>scheme := scheme bc\<rparr> in
                 if authority rc1 = None then
                   let rc2 = rc1\<lparr>authority := authority bc\<rparr> in
                   if path rc2 = Some [] then
                     composeIdentifier st
                       (rc2\<lparr>path := path bc,
                            query := (case query rc2 of None \<Rightarrow> query bc | Some q \<Rightarrow> Some q)\<rparr>)
                   else
                     (case path rc2 of
                        None \<Rightarrow> Inl TypeError
                      | Some p \<Rightarrow>
                          if \<not> startsWith p ''/'' then
                            (case mergePaths p bc of
                               Inl e \<Rightarrow> Inl e
                             | Inr merged \<Rightarrow> composeIdentifier st (rc2\<lparr>path := Some merged\<rparr>))
                          else composeIdentifier st rc2)
                 else composeIdentifier st rc1)
          else composeIdentifier st rc)"

definition toAbsolute :: "strategy \<Rightarrow> string \<Rightarrow> char error + string" where
  "toAbsolute st identifier =
     (case parse st identifier of
        Inl e \<Rightarrow> Inl e
      | Inr c \<Rightarrow> composeIdentifier st (c\<lparr>fragment := None\<rparr>))"

definition normalize :: "strategy \<Rightarrow> string \<Rightarrow> char error + string" where
  "normalize st identifier =
     (case parse st identifier of
        Inl e \<Rightarrow> Inl e
      | Inr c \<Rightarrow> composeIdentifier st c)"

definition toAbsoluteUri :: "string \<Rightarrow> char error + string" where
  "toAbsoluteUri = toAbsolute uriStrategy"

definition normalizeUri :: "string \<Rightarrow> char error + string" where
  "normalizeUri = normalize uriStrategy"

definition resolveUri :: "string \<Rightarrow> string \<Rightarrow> char error + string" where
  "resolveUri = resolveReference uriStrategy"

section \<open>Relativization\<close>

text \<open>
  \<^verbatim>\<open>s.split("/")\<close> always has at least one element, and \<^verbatim>\<open>segments.join("/")\<close>
  puts the separator between the elements. An array read past its end is
  \<^verbatim>\<open>undefined\<close>, here \<open>None\<close>.
\<close>

fun splitOn :: "'a \<Rightarrow> 'a list \<Rightarrow> 'a list list" where
  "splitOn c [] = [[]]"
| "splitOn c (d # t) =
     (if d = c then [] # splitOn c t
      else (case splitOn c t of [] \<Rightarrow> [[d]] | h # r \<Rightarrow> (d # h) # r))"

fun joinWith :: "'a \<Rightarrow> 'a list list \<Rightarrow> 'a list" where
  "joinWith c [] = []"
| "joinWith c [s] = s"
| "joinWith c (s # ss) = s @ c # joinWith c ss"

definition nthOpt :: "'a list \<Rightarrow> nat \<Rightarrow> 'a option" where
  "nthOpt xs i = (if i < length xs then Some (xs ! i) else None)"

function commonPosition :: "string list \<Rightarrow> string list \<Rightarrow> nat \<Rightarrow> nat" where
  "commonPosition fromSegments toSegments position =
     (if nthOpt fromSegments position = nthOpt toSegments position
         \<and> int position < int (length fromSegments) - 1
         \<and> int position < int (length toSegments) - 1
      then commonPosition fromSegments toSegments (position + 1)
      else position)"
  by pat_completeness auto
termination
  by (relation "measure (\<lambda>(fs, ts, position). length fs - position)") auto

declare commonPosition.simps [simp del]

function pushUps :: "nat \<Rightarrow> nat \<Rightarrow> string list \<Rightarrow> string list" where
  "pushUps index n segments =
     (if index < n then pushUps (index + 1) n (segments @ [''..'']) else segments)"
  by pat_completeness auto
termination
  by (relation "measure (\<lambda>(index, n, segments). n - index)") auto

declare pushUps.simps [simp del]

function pushRest :: "nat \<Rightarrow> string list \<Rightarrow> string list \<Rightarrow> string list" where
  "pushRest index toSegments segments =
     (if index < length toSegments
      then pushRest (index + 1) toSegments (segments @ [toSegments ! index])
      else segments)"
  by pat_completeness auto
termination
  by (relation "measure (\<lambda>(index, ts, segments). length ts - index)") auto

declare pushRest.simps [simp del]

definition relativePath :: "char components \<Rightarrow> char components \<Rightarrow> char error + string" where
  "relativePath fromUri toUri =
     (if path fromUri = path toUri then Inr []
      else
        (case path fromUri of
           None \<Rightarrow> Inl TypeError
         | Some fp \<Rightarrow>
             (case path toUri of
                None \<Rightarrow> Inl TypeError
              | Some tp \<Rightarrow>
                  let fromSegments = splitOn CHR ''/'' fp;
                      toSegments = splitOn CHR ''/'' tp;
                      position = commonPosition fromSegments toSegments 0;
                      segments = pushUps (position + 1) (length fromSegments) [];
                      segments = pushRest position toSegments segments
                  in Inr (joinWith CHR ''/'' segments))))"

definition toRelative :: "strategy \<Rightarrow> string \<Rightarrow> string \<Rightarrow> char error + string" where
  "toRelative st u relativeTo =
     (case parseAbsolute st u of
        Inl e \<Rightarrow> Inl e
      | Inr fromUri \<Rightarrow>
          (case parse st relativeTo of
             Inl e \<Rightarrow> Inl e
           | Inr toUri \<Rightarrow>
               if scheme toUri \<noteq> scheme fromUri then Inr relativeTo
               else if authority toUri \<noteq> authority fromUri then Inr relativeTo
               else
                 (case relativePath fromUri toUri of
                    Inl e \<Rightarrow> Inl e
                  | Inr result \<Rightarrow>
                      let result = (case query toUri of
                                      None \<Rightarrow> result
                                    | Some q \<Rightarrow> result @ ''?'' @ q);
                          result = (case fragment toUri of
                                      None \<Rightarrow> result
                                    | Some f \<Rightarrow> result @ ''#'' @ f)
                      in Inr result)))"

definition toRelativeUri :: "string \<Rightarrow> string \<Rightarrow> char error + string" where
  "toRelativeUri = toRelative uriStrategy"

section \<open>The IRI strategy\<close>

text \<open>
  The source has one set of functions for both strategies, working on JavaScript
  strings. Here a URI string and an IRI string have different types, so the functions
  that the IRI strategy normalizes with are written out a second time over code points,
  with the suffix \<open>I\<close>; they are the same code. The patterns without the \<^verbatim>\<open>u\<close> flag
  (the three dot-segment tests and the triplet pattern) and the string indices count
  code units in the source and code points here. These functions test and cut a string
  only at ASCII characters, which are one code unit and one code point alike, so the
  results agree.

  \<^verbatim>\<open>toLowerCase\<close> follows the Unicode case mapping of the host language when it is
  applied to the authority of an IRI. That table is not part of the repository; it is the
  parameter \<open>lower\<close> of \<open>composeIdentifierI\<close>. \<^verbatim>\<open>toUpperCase\<close> is only applied to a
  matched triplet, which is ASCII.
\<close>

definition removeSegmentI :: "int list \<Rightarrow> int list" where
  "removeSegmentI p =
     (case indexOf p (of_char CHR ''/'') 1 of
        None \<Rightarrow> []
      | Some position \<Rightarrow> of_char CHR ''/'' # drop (position + 1) p)"

definition replaceSegmentWithSlashI :: "int list \<Rightarrow> int list" where
  "replaceSegmentWithSlashI p =
     (case indexOf p (of_char CHR ''/'') 1 of
        None \<Rightarrow> [of_char CHR ''/'']
      | Some position \<Rightarrow> of_char CHR ''/'' # drop (position + 1) p)"

definition removeLastSegmentI :: "int list \<Rightarrow> int list" where
  "removeLastSegmentI p =
     (case lastIndexOf p (of_char CHR ''/'') of
        None \<Rightarrow> p
      | Some position \<Rightarrow> take position p)"

definition getSegmentI :: "int list \<Rightarrow> int list" where
  "getSegmentI p =
     (case indexOf p (of_char CHR ''/'') 1 of
        None \<Rightarrow> p
      | Some position \<Rightarrow> take position p)"

lemma removeSegmentI_shorter: "p \<noteq> [] \<Longrightarrow> length (removeSegmentI p) < length p"
  by (auto simp: removeSegmentI_def split: option.splits dest!: indexOf_bounds)

lemma isSlashDotSegmentI_prefix:
  "test (cp isSlashDotSegment) p \<Longrightarrow> 2 \<le> length p"
  by (simp add: test_def cp_def isSlashDotSegment_def exec_Bol split: list.splits if_splits)

lemma isUpSegmentI_prefix:
  "test (cp isUpSegment) p \<Longrightarrow> 2 \<le> length p"
  by (simp add: test_def cp_def isUpSegment_def exec_Bol split: list.splits if_splits)

lemma replaceSegmentWithSlashI_shorter:
  "2 \<le> length p \<Longrightarrow> length (replaceSegmentWithSlashI p) < length p"
  by (auto simp: replaceSegmentWithSlashI_def split: option.splits dest!: indexOf_bounds)

function removeDotSegmentsLoopI :: "int list \<Rightarrow> int list \<Rightarrow> int list" where
  "removeDotSegmentsLoopI p output =
     (if length p > 0 then
        (if test (cp isNoOpSegment) p then removeDotSegmentsLoopI (removeSegmentI p) output
         else if test (cp isSlashDotSegment) p
           then removeDotSegmentsLoopI (replaceSegmentWithSlashI p) output
         else if test (cp isUpSegment) p
           then removeDotSegmentsLoopI (replaceSegmentWithSlashI p) (removeLastSegmentI output)
         else removeDotSegmentsLoopI (removeSegmentI p) (output @ getSegmentI p))
      else output)"
  by pat_completeness auto
termination
proof (relation "measure (\<lambda>(p, output). length p)", goal_cases)
  case 1
  show ?case by simp
next
  case (2 p out)
  then show ?case by (simp add: removeSegmentI_shorter)
next
  case (3 p out)
  then have "2 \<le> length p" using isSlashDotSegmentI_prefix by blast
  then show ?case by (simp add: replaceSegmentWithSlashI_shorter)
next
  case (4 p out)
  then have "2 \<le> length p" using isUpSegmentI_prefix by blast
  then show ?case by (simp add: replaceSegmentWithSlashI_shorter)
next
  case (5 p out)
  then show ?case by (simp add: removeSegmentI_shorter)
qed

declare removeDotSegmentsLoopI.simps [simp del]

definition removeDotSegmentsI :: "int list \<Rightarrow> int list" where
  "removeDotSegmentsI p = removeDotSegmentsLoopI p []"

definition hexValueI :: "int \<Rightarrow> int option" where
  "hexValueI c =
     (if of_char CHR ''0'' \<le> c \<and> c \<le> of_char CHR ''9'' then Some (c - 48)
      else if of_char CHR ''a'' \<le> c \<and> c \<le> of_char CHR ''f'' then Some (c - 87)
      else if of_char CHR ''A'' \<le> c \<and> c \<le> of_char CHR ''F'' then Some (c - 55)
      else None)"

fun hexDigitsI :: "int option \<Rightarrow> int list \<Rightarrow> int option" where
  "hexDigitsI acc [] = acc"
| "hexDigitsI acc (c # t) =
     (case hexValueI c of
        None \<Rightarrow> acc
      | Some d \<Rightarrow> hexDigitsI (Some (16 * (case acc of None \<Rightarrow> 0 | Some a \<Rightarrow> a) + d)) t)"

definition parseInt16I :: "int list \<Rightarrow> int option" where
  "parseInt16I s = hexDigitsI None s"

definition fromCharCodeI :: "int option \<Rightarrow> int list" where
  "fromCharCodeI n = (case n of None \<Rightarrow> [0] | Some k \<Rightarrow> [k mod 65536])"

definition toUpperCodePoint :: "int \<Rightarrow> int" where
  "toUpperCodePoint c =
     (if of_char CHR ''a'' \<le> c \<and> c \<le> of_char CHR ''z'' then c - 32 else c)"

definition toUpperCaseI :: "int list \<Rightarrow> int list" where
  "toUpperCaseI s = map toUpperCodePoint s"

definition percentEncodedToCharI :: "(int list \<Rightarrow> bool) \<Rightarrow> int list \<Rightarrow> int list" where
  "percentEncodedToCharI isAllowed match =
     (let charCode = parseInt16I (drop 1 match);
          char = fromCharCodeI charCode
      in if isAllowed char then char else toUpperCaseI match)"

definition isAllowedUnescapedInIPath :: "int list \<Rightarrow> bool" where
  "isAllowedUnescapedInIPath =
     test (alts [iunreserved, cp subDelims,
                 Cls [one (of_char CHR '':''), one (of_char CHR ''@'')]])"

definition isAllowedUnescapedInIQuery :: "int list \<Rightarrow> bool" where
  "isAllowedUnescapedInIQuery =
     test (alts [iunreserved, cp subDelims,
                 Cls [one (of_char CHR '':''), one (of_char CHR ''@''),
                      one (of_char CHR ''/''), one (of_char CHR ''?'')]])"

definition normalizePathI :: "(int list \<Rightarrow> bool) \<Rightarrow> int list \<Rightarrow> int list" where
  "normalizePathI isAllowed seg =
     replaceAll (removeDotSegmentsI seg) (cp pctEncoded) (percentEncodedToCharI isAllowed)"

definition normalizeQueryI :: "(int list \<Rightarrow> bool) \<Rightarrow> int list \<Rightarrow> int list" where
  "normalizeQueryI isAllowed q =
     replaceAll q (cp pctEncoded) (percentEncodedToCharI isAllowed)"

record strategyI =
  parseAbsoluteI :: "int list \<Rightarrow> int error + int components"
  parseReferenceI :: "int list \<Rightarrow> int error + int components"
  parseI :: "int list \<Rightarrow> int error + int components"
  stNormalizePathI :: "int list \<Rightarrow> int list"
  stNormalizeQueryI :: "int list \<Rightarrow> int list"
  stNormalizeFragmentI :: "int list \<Rightarrow> int list"

definition iriStrategy :: strategyI where
  "iriStrategy =
     \<lparr>parseAbsoluteI = parseAbsoluteIri,
      parseReferenceI = parseIriReference,
      parseI = parseIri,
      stNormalizePathI = normalizePathI isAllowedUnescapedInIPath,
      stNormalizeQueryI = normalizeQueryI isAllowedUnescapedInIQuery,
      stNormalizeFragmentI = normalizeQueryI isAllowedUnescapedInIQuery\<rparr>"

definition composeIdentifierI ::
    "(int list \<Rightarrow> int list) \<Rightarrow> strategyI \<Rightarrow> int components \<Rightarrow> int error + int list" where
  "composeIdentifierI lower st c =
     (case scheme c of
        None \<Rightarrow> Inl TypeError
      | Some s \<Rightarrow>
          (case path c of
             None \<Rightarrow> Inl TypeError
           | Some p \<Rightarrow>
               Inr (lower s @ [of_char CHR '':'']
                    @ (case authority c of
                         None \<Rightarrow> []
                       | Some a \<Rightarrow> [of_char CHR ''/'', of_char CHR ''/''] @ lower a)
                    @ stNormalizePathI st p
                    @ (case query c of
                         None \<Rightarrow> []
                       | Some q \<Rightarrow> [of_char CHR ''?''] @ stNormalizeQueryI st q)
                    @ (case fragment c of
                         None \<Rightarrow> []
                       | Some f \<Rightarrow> [of_char CHR ''#''] @ stNormalizeFragmentI st f))))"

definition normalizeI ::
    "(int list \<Rightarrow> int list) \<Rightarrow> strategyI \<Rightarrow> int list \<Rightarrow> int error + int list" where
  "normalizeI lower st identifier =
     (case parseI st identifier of
        Inl e \<Rightarrow> Inl e
      | Inr c \<Rightarrow> composeIdentifierI lower st c)"

definition normalizeIri :: "(int list \<Rightarrow> int list) \<Rightarrow> int list \<Rightarrow> int error + int list" where
  "normalizeIri lower = normalizeI lower iriStrategy"

section \<open>Facts about the matcher\<close>

lemma in_concat_map: "y \<in> set (concat (map f xs)) \<longleftrightarrow> (\<exists>z \<in> set xs. y \<in> set (f z))"
  by auto

lemma matcher_Seq_iff:
  "y \<in> set (matcher (Seq a b) x) \<longleftrightarrow> (\<exists>z \<in> set (matcher a x). y \<in> set (matcher b z))"
  by auto

lemma matcher_Rep_cases:
  assumes "y \<in> set (matcher (Rep lo hi g r) x)"
  shows "y = x \<or> (\<exists>z \<in> set (matcher r (resetCaptures (names r) x)).
            \<not> (lo = 0 \<and> length (rest x) \<le> length (rest z)) \<and> hi \<noteq> Some 0 \<and>
            y \<in> set (matcher (Rep (lo - 1) (decMax hi) g r) z))"
  using assms by (subst (asm) matcher.simps(6)) (auto simp: Let_def split: if_splits)

lemma matcher_suffix:
  "y \<in> set (matcher r x) \<Longrightarrow> \<exists>w. rest x = w @ rest y"
proof (induction r x arbitrary: y rule: matcher.induct)
  case (4 a b x)
  then obtain z where z: "z \<in> set (matcher a x)" "y \<in> set (matcher b z)"
    by auto
  from "4.IH"(1)[OF z(1)] "4.IH"(2)[OF z(1) z(2)] show ?case by auto
next
  case (6 lo hi g r x)
  from matcher_Rep_cases[OF "6.prems"] show ?case
  proof
    assume "y = x" then show ?thesis by simp
  next
    assume "\<exists>z \<in> set (matcher r (resetCaptures (names r) x)).
            \<not> (lo = 0 \<and> length (rest x) \<le> length (rest z)) \<and> hi \<noteq> Some 0 \<and>
            y \<in> set (matcher (Rep (lo - 1) (decMax hi) g r) z)"
    then obtain z where z: "z \<in> set (matcher r (resetCaptures (names r) x))"
      "\<not> (lo = 0 \<and> length (rest x) \<le> length (rest z))" "hi \<noteq> Some 0"
      "y \<in> set (matcher (Rep (lo - 1) (decMax hi) g r) z)" by blast
    from "6.IH"(1)[OF z(3) z(1)] obtain w1 where "rest (resetCaptures (names r) x) = w1 @ rest z" by blast
    moreover from "6.IH"(2)[OF z(3) z(1) z(2) z(4)] obtain w2 where "rest z = w2 @ rest y" by blast
    ultimately show ?thesis by (simp add: resetCaptures_def)
  qed
next
  case (2 c x)
  then show ?case by (cases "rest x") (auto split: if_splits)
next
  case (3 rs x)
  then show ?case by (cases "rest x") (auto split: if_splits)
qed (auto split: if_splits)

lemma matcher_frame:
  "y \<in> set (matcher r x) \<Longrightarrow> n \<notin> set (names r) \<Longrightarrow> captures y n = captures x n"
proof (induction r x arbitrary: y rule: matcher.induct)
  case (2 c x)
  then show ?case by (cases "rest x") (auto split: if_splits)
next
  case (3 rs x)
  then show ?case by (cases "rest x") (auto split: if_splits)
next
  case (4 a b x)
  then obtain z where z: "z \<in> set (matcher a x)" "y \<in> set (matcher b z)"
    by auto
  from "4.prems"(2) have n: "n \<notin> set (names a)" "n \<notin> set (names b)" by auto
  from "4.IH"(1)[OF z(1) n(1)] "4.IH"(2)[OF z(1) z(2) n(2)] show ?case by simp
next
  case (6 lo hi g r x)
  from "6.prems"(2) have n: "n \<notin> set (names r)" by simp
  from matcher_Rep_cases[OF "6.prems"(1)] show ?case
  proof
    assume "y = x" then show ?thesis by simp
  next
    assume "\<exists>z \<in> set (matcher r (resetCaptures (names r) x)).
            \<not> (lo = 0 \<and> length (rest x) \<le> length (rest z)) \<and> hi \<noteq> Some 0 \<and>
            y \<in> set (matcher (Rep (lo - 1) (decMax hi) g r) z)"
    then obtain z where z: "z \<in> set (matcher r (resetCaptures (names r) x))"
      "\<not> (lo = 0 \<and> length (rest x) \<le> length (rest z))" "hi \<noteq> Some 0"
      "y \<in> set (matcher (Rep (lo - 1) (decMax hi) g r) z)" by blast
    have "captures z n = captures (resetCaptures (names r) x) n"
      by (rule "6.IH"(1)[OF z(3) z(1) n])
    moreover have "captures y n = captures z n"
      by (rule "6.IH"(2)[OF z(3) z(1) z(2) z(4)]) (simp add: n)
    ultimately show ?thesis using n by (simp add: resetCaptures_def)
  qed
qed (auto split: if_splits)

text \<open>Names that every match of a pattern is sure to have captured.\<close>

primrec sure :: "'a regex \<Rightarrow> string list" where
  "sure Eps = []"
| "sure (Chr c) = []"
| "sure (Cls rs) = []"
| "sure (Seq a b) = filter (\<lambda>n. n \<notin> set (names b)) (sure a) @ sure b"
| "sure (Alt a b) = filter (\<lambda>n. n \<in> set (sure b)) (sure a)"
| "sure (Rep lo hi g r) = []"
| "sure (Grp n r) = n # filter (\<lambda>k. k \<noteq> n) (sure r)"
| "sure (NotAhead r) = []"
| "sure Bol = []"
| "sure Eol = []"

lemma matcher_sure:
  "y \<in> set (matcher r x) \<Longrightarrow> n \<in> set (sure r) \<Longrightarrow> captures y n \<noteq> None"
proof (induction r arbitrary: x y)
  case (Seq a b)
  from Seq.prems(1) obtain z where z: "z \<in> set (matcher a x)" "y \<in> set (matcher b z)"
    by auto
  show ?case
  proof (cases "n \<in> set (sure b)")
    case True
    then show ?thesis using Seq.IH(2)[OF z(2)] by simp
  next
    case False
    with Seq.prems(2) have n: "n \<in> set (sure a)" "n \<notin> set (names b)" by auto
    from matcher_frame[OF z(2) n(2)] Seq.IH(1)[OF z(1) n(1)] show ?thesis by simp
  qed
next
  case (Grp m r)
  then show ?case by auto
qed auto

primrec avoids :: "'a::linorder \<Rightarrow> 'a regex \<Rightarrow> bool" where
  "avoids bad Eps = True"
| "avoids bad (Chr c) = (c \<noteq> bad)"
| "avoids bad (Cls rs) = (\<not> inClass rs bad)"
| "avoids bad (Seq a b) = (avoids bad a \<and> avoids bad b)"
| "avoids bad (Alt a b) = (avoids bad a \<and> avoids bad b)"
| "avoids bad (Rep lo hi g r) = avoids bad r"
| "avoids bad (Grp n r) = avoids bad r"
| "avoids bad (NotAhead r) = True"
| "avoids bad Bol = True"
| "avoids bad Eol = True"

primrec groupsAvoid :: "'a::linorder \<Rightarrow> 'a regex \<Rightarrow> bool" where
  "groupsAvoid bad Eps = True"
| "groupsAvoid bad (Chr c) = True"
| "groupsAvoid bad (Cls rs) = True"
| "groupsAvoid bad (Seq a b) = (groupsAvoid bad a \<and> groupsAvoid bad b)"
| "groupsAvoid bad (Alt a b) = (groupsAvoid bad a \<and> groupsAvoid bad b)"
| "groupsAvoid bad (Rep lo hi g r) = groupsAvoid bad r"
| "groupsAvoid bad (Grp n r) = avoids bad r"
| "groupsAvoid bad (NotAhead r) = True"
| "groupsAvoid bad Bol = True"
| "groupsAvoid bad Eol = True"

definition capsAvoid :: "'a \<Rightarrow> 'a state \<Rightarrow> bool" where
  "capsAvoid bad x = (\<forall>n v. captures x n = Some v \<longrightarrow> bad \<notin> set v)"

lemma capsAvoid_reset: "capsAvoid bad x \<Longrightarrow> capsAvoid bad (resetCaptures ns x)"
  by (auto simp: capsAvoid_def resetCaptures_def split: if_splits)

lemma matcher_avoids:
  "y \<in> set (matcher r x) \<Longrightarrow> avoids bad r \<Longrightarrow>
     (\<exists>w. rest x = w @ rest y \<and> bad \<notin> set w) \<and> (capsAvoid bad x \<longrightarrow> capsAvoid bad y)"
proof (induction r x arbitrary: y rule: matcher.induct)
  case (2 c x)
  show ?case
  proof (cases "rest x")
    case Nil
    with "2.prems" show ?thesis by simp
  next
    case (Cons d t)
    with "2.prems" have y: "y = x\<lparr>endIndex := Suc (endIndex x), rest := t\<rparr>" and d: "d = c" "c \<noteq> bad"
      by (simp_all split: if_splits)
    have "rest x = [d] @ rest y \<and> bad \<notin> set [d]" using Cons y d by simp
    then have "\<exists>w. rest x = w @ rest y \<and> bad \<notin> set w" by blast
    moreover have "capsAvoid bad x \<longrightarrow> capsAvoid bad y" using y by (simp add: capsAvoid_def)
    ultimately show ?thesis by blast
  qed
next
  case (3 rs x)
  show ?case
  proof (cases "rest x")
    case Nil
    with "3.prems" show ?thesis by simp
  next
    case (Cons d t)
    with "3.prems" have y: "y = x\<lparr>endIndex := Suc (endIndex x), rest := t\<rparr>" and d: "inClass rs d" "\<not> inClass rs bad"
      by (simp_all split: if_splits)
    then have "d \<noteq> bad" by auto
    then have "rest x = [d] @ rest y \<and> bad \<notin> set [d]" using Cons y by simp
    then have "\<exists>w. rest x = w @ rest y \<and> bad \<notin> set w" by blast
    moreover have "capsAvoid bad x \<longrightarrow> capsAvoid bad y" using y by (simp add: capsAvoid_def)
    ultimately show ?thesis by blast
  qed
next
  case (4 a b x)
  then obtain z where z: "z \<in> set (matcher a x)" "y \<in> set (matcher b z)"
    by auto
  from "4.prems"(2) have av: "avoids bad a" "avoids bad b" by auto
  from "4.IH"(1)[OF z(1) av(1)] "4.IH"(2)[OF z(1) z(2) av(2)]
  obtain w1 w2 where w: "rest x = w1 @ rest z" "bad \<notin> set w1" "rest z = w2 @ rest y" "bad \<notin> set w2"
    and c: "capsAvoid bad x \<longrightarrow> capsAvoid bad z" "capsAvoid bad z \<longrightarrow> capsAvoid bad y"
    by blast
  from w have "rest x = (w1 @ w2) @ rest y \<and> bad \<notin> set (w1 @ w2)" by simp
  then have "\<exists>w. rest x = w @ rest y \<and> bad \<notin> set w" by blast
  with c show ?case by blast
next
  case (6 lo hi g r x)
  from "6.prems"(2) have av: "avoids bad r" by simp
  from matcher_Rep_cases[OF "6.prems"(1)] show ?case
  proof
    assume "y = x" then show ?thesis by simp
  next
    assume "\<exists>z \<in> set (matcher r (resetCaptures (names r) x)).
            \<not> (lo = 0 \<and> length (rest x) \<le> length (rest z)) \<and> hi \<noteq> Some 0 \<and>
            y \<in> set (matcher (Rep (lo - 1) (decMax hi) g r) z)"
    then obtain z where z: "z \<in> set (matcher r (resetCaptures (names r) x))"
      "\<not> (lo = 0 \<and> length (rest x) \<le> length (rest z))" "hi \<noteq> Some 0"
      "y \<in> set (matcher (Rep (lo - 1) (decMax hi) g r) z)" by blast
    have s1: "(\<exists>w. rest (resetCaptures (names r) x) = w @ rest z \<and> bad \<notin> set w) \<and>
        (capsAvoid bad (resetCaptures (names r) x) \<longrightarrow> capsAvoid bad z)"
      by (rule "6.IH"(1)[OF z(3) z(1) av])
    have s2: "(\<exists>w. rest z = w @ rest y \<and> bad \<notin> set w) \<and> (capsAvoid bad z \<longrightarrow> capsAvoid bad y)"
      by (rule "6.IH"(2)[OF z(3) z(1) z(2) z(4)]) (simp add: av)
    have r: "rest (resetCaptures (names r) x) = rest x" by (simp add: resetCaptures_def)
    from s1 s2 obtain w1 w2 where w: "rest x = w1 @ rest z" "bad \<notin> set w1"
      "rest z = w2 @ rest y" "bad \<notin> set w2" unfolding r by blast
    then have "rest x = (w1 @ w2) @ rest y \<and> bad \<notin> set (w1 @ w2)" by simp
    then have "\<exists>w. rest x = w @ rest y \<and> bad \<notin> set w" by blast
    moreover have "capsAvoid bad x \<longrightarrow> capsAvoid bad y"
    proof
      assume "capsAvoid bad x"
      then have "capsAvoid bad (resetCaptures (names r) x)" by (rule capsAvoid_reset)
      with s1 have "capsAvoid bad z" by simp
      with s2 show "capsAvoid bad y" by simp
    qed
    ultimately show ?thesis by simp
  qed
next
  case (7 n r x)
  from "7.prems"(1) have "y \<in> (\<lambda>z. z\<lparr>captures := (captures z)(n \<mapsto> take (length (rest x) - length (rest z)) (rest x))\<rparr>) ` set (matcher r x)"
    by simp
  then obtain z where z: "z \<in> set (matcher r x)"
    "y = z\<lparr>captures := (captures z)(n \<mapsto> take (length (rest x) - length (rest z)) (rest x))\<rparr>"
    by (rule imageE)
  from "7.prems"(2) have av: "avoids bad r" by simp
  from "7.IH"[OF z(1) av] obtain w where w: "rest x = w @ rest z" "bad \<notin> set w"
    and c: "capsAvoid bad x \<longrightarrow> capsAvoid bad z" by blast
  have t: "take (length (rest x) - length (rest z)) (rest x) = w" using w(1) by simp
  have ry: "rest y = rest z" using z(2) by simp
  have "capsAvoid bad x \<longrightarrow> capsAvoid bad y"
    using c w(2) unfolding z(2) t by (simp add: capsAvoid_def)
  moreover have "\<exists>w. rest x = w @ rest y \<and> bad \<notin> set w"
    using w ry by auto
  ultimately show ?case by simp
next
  case (1 x)
  then show ?case by simp
next
  case (5 a b x)
  from "5.prems" have "y \<in> set (matcher a x) \<or> y \<in> set (matcher b x)"
    and av: "avoids bad a" "avoids bad b" by simp_all
  then show ?case using "5.IH"(1)[OF _ av(1)] "5.IH"(2)[OF _ av(2)] by blast
next
  case (8 r x)
  then have "y = x" by (simp split: if_splits)
  then show ?case by simp
next
  case (9 x)
  then have "y = x" by (simp split: if_splits)
  then show ?case by simp
next
  case (10 x)
  then have "y = x" by (simp split: if_splits)
  then show ?case by simp
qed

lemma matcher_groupsAvoid:
  "y \<in> set (matcher r x) \<Longrightarrow> groupsAvoid bad r \<Longrightarrow> capsAvoid bad x \<Longrightarrow> capsAvoid bad y"
proof (induction r x arbitrary: y rule: matcher.induct)
  case (2 c x)
  then show ?case by (cases "rest x") (auto split: if_splits simp: capsAvoid_def)
next
  case (3 rs x)
  then show ?case by (cases "rest x") (auto split: if_splits simp: capsAvoid_def)
next
  case (4 a b x)
  then obtain z where z: "z \<in> set (matcher a x)" "y \<in> set (matcher b z)"
    by auto
  from "4.prems"(2) have av: "groupsAvoid bad a" "groupsAvoid bad b" by auto
  from "4.IH"(2)[OF z(1) z(2) av(2)] "4.IH"(1)[OF z(1) av(1) "4.prems"(3)] show ?case .
next
  case (6 lo hi g r x)
  from "6.prems"(2) have av: "groupsAvoid bad r" by simp
  from matcher_Rep_cases[OF "6.prems"(1)] show ?case
  proof
    assume "y = x" then show ?thesis using "6.prems"(3) by simp
  next
    assume "\<exists>z \<in> set (matcher r (resetCaptures (names r) x)).
            \<not> (lo = 0 \<and> length (rest x) \<le> length (rest z)) \<and> hi \<noteq> Some 0 \<and>
            y \<in> set (matcher (Rep (lo - 1) (decMax hi) g r) z)"
    then obtain z where z: "z \<in> set (matcher r (resetCaptures (names r) x))"
      "\<not> (lo = 0 \<and> length (rest x) \<le> length (rest z))" "hi \<noteq> Some 0"
      "y \<in> set (matcher (Rep (lo - 1) (decMax hi) g r) z)" by blast
    have "capsAvoid bad z"
      by (rule "6.IH"(1)[OF z(3) z(1) av capsAvoid_reset[OF "6.prems"(3)]])
    then show ?thesis
      using "6.IH"(2)[OF z(3) z(1) z(2) z(4)] av by simp
  qed
next
  case (7 n r x)
  from matcher_avoids[OF "7.prems"(1), of bad] "7.prems"(2,3) show ?case by simp
next
  case (1 x)
  then show ?case by simp
next
  case (5 a b x)
  from "5.prems" have "y \<in> set (matcher a x) \<or> y \<in> set (matcher b x)" by simp
  then show ?case using "5.IH" "5.prems"(2,3) by auto
next
  case (8 r x)
  then have "y = x" by (simp split: if_splits)
  then show ?case using "8.prems" by simp
next
  case (9 x)
  then have "y = x" by (simp split: if_splits)
  then show ?case using "9.prems" by simp
next
  case (10 x)
  then have "y = x" by (simp split: if_splits)
  then show ?case using "10.prems" by simp
qed

lemma exec_Bol_Some:
  "exec (Seq Bol r) s = Some y \<Longrightarrow>
     y \<in> set (matcher r \<lparr>endIndex = 0, rest = s, captures = (\<lambda>k. None)\<rparr>)"
  by (auto simp: exec_Bol split: list.splits)

lemma matcher_Alt_iff:
  "y \<in> set (matcher (Alt a b) x) \<longleftrightarrow> y \<in> set (matcher a x) \<or> y \<in> set (matcher b x)"
  by simp

lemma createParser_Inr:
  assumes "createParser pattern ty s = Inr c"
  obtains y where "exec pattern s = Some y"
    and "scheme c = captures y ''scheme''"
    and "authority c = captures y ''authority''"
    and "userinfo c = captures y ''userinfo''"
    and "host c = captures y ''host''"
    and "port c = captures y ''port''"
    and "path c = (if captures y ''authority'' = None then captures y ''path2''
                   else captures y ''path'')"
    and "query c = captures y ''query''"
    and "fragment c = captures y ''fragment''"
  using assms
  by (auto simp: createParser_def componentsOf_def Let_def split: option.splits if_splits)

lemma absolute_shape:
  fixes S C B1 B2 T :: "'a::linorder regex"
  assumes y: "y \<in> set (matcher (Seq S (Seq C (Seq (Alt B1 B2) T)))
                  \<lparr>endIndex = 0, rest = s, captures = (\<lambda>k. None)\<rparr>)"
    and sch: "''scheme'' \<in> set (sure (Seq S (Seq C (Seq (Alt B1 B2) T))))"
    and frag: "''fragment'' \<notin> set (names (Seq S (Seq C (Seq (Alt B1 B2) T))))"
    and b1: "''authority'' \<in> set (sure (Seq B1 T))" "''host'' \<in> set (sure (Seq B1 T))"
            "''path'' \<in> set (sure (Seq B1 T))"
    and b2: "''path2'' \<in> set (sure (Seq B2 T))"
            "''authority'' \<notin> set (names (Seq S (Seq C (Seq B2 T))))"
  shows "captures y ''scheme'' \<noteq> None \<and> captures y ''fragment'' = None
         \<and> (captures y ''authority'' \<noteq> None \<longrightarrow>
              captures y ''host'' \<noteq> None \<and> captures y ''path'' \<noteq> None)
         \<and> (captures y ''authority'' = None \<longrightarrow> captures y ''path2'' \<noteq> None)"
proof -
  let ?x = "\<lparr>endIndex = 0, rest = s, captures = (\<lambda>k. None)\<rparr> :: 'a state"
  have 1: "captures y ''scheme'' \<noteq> None" by (rule matcher_sure[OF y sch])
  have 2: "captures y ''fragment'' = None" using matcher_frame[OF y frag] by simp
  from y obtain z1 z2 z3 where z: "z1 \<in> set (matcher S ?x)" "z2 \<in> set (matcher C z1)"
    "z3 \<in> set (matcher (Alt B1 B2) z2)" "y \<in> set (matcher T z3)"
    unfolding matcher_Seq_iff by blast
  from z(3) have "z3 \<in> set (matcher B1 z2) \<or> z3 \<in> set (matcher B2 z2)" by simp
  then show ?thesis
  proof
    assume "z3 \<in> set (matcher B1 z2)"
    with z(4) have "y \<in> set (matcher (Seq B1 T) z2)" unfolding matcher_Seq_iff by blast
    from matcher_sure[OF this b1(1)] matcher_sure[OF this b1(2)] matcher_sure[OF this b1(3)] 1 2
    show ?thesis by auto
  next
    assume "z3 \<in> set (matcher B2 z2)"
    with z have yy: "y \<in> set (matcher (Seq S (Seq C (Seq B2 T))) ?x)"
      unfolding matcher_Seq_iff by blast
    from z(4) \<open>z3 \<in> set (matcher B2 z2)\<close> have "y \<in> set (matcher (Seq B2 T) z2)"
      unfolding matcher_Seq_iff by blast
    from matcher_sure[OF this b2(1)] matcher_frame[OF yy b2(2)] 1 2
    show ?thesis by auto
  qed
qed

lemma absoluteUri_names:
  "''scheme'' \<in> set (sure (Seq scheme_re (Seq (Chr CHR '':'') (Seq hierPart (Seq query_re Eol)))))"
  "''fragment'' \<notin> set (names (Seq scheme_re (Seq (Chr CHR '':'') (Seq hierPart (Seq query_re Eol)))))"
  by code_simp+

lemma absoluteUri_branches:
  "''authority'' \<in> set (sure (Seq (cat [Chr CHR ''/'', Chr CHR ''/'', authority_re, path_re]) (Seq query_re Eol)))"
  "''host'' \<in> set (sure (Seq (cat [Chr CHR ''/'', Chr CHR ''/'', authority_re, path_re]) (Seq query_re Eol)))"
  "''path'' \<in> set (sure (Seq (cat [Chr CHR ''/'', Chr CHR ''/'', authority_re, path_re]) (Seq query_re Eol)))"
  "''path2'' \<in> set (sure (Seq pathWithoutAuthority (Seq query_re Eol)))"
  "''authority'' \<notin> set (names (Seq scheme_re (Seq (Chr CHR '':'') (Seq pathWithoutAuthority (Seq query_re Eol)))))"
  by code_simp+

lemma parseAbsoluteUri_fields:
  assumes "parseAbsoluteUri s = Inr c"
  shows "scheme c \<noteq> None \<and> fragment c = None \<and> path c \<noteq> None
         \<and> (authority c \<noteq> None \<longrightarrow> host c \<noteq> None)"
proof -
  from assms obtain y where y: "exec absoluteUri s = Some y"
    and f: "scheme c = captures y ''scheme''" "authority c = captures y ''authority''"
      "host c = captures y ''host''"
      "path c = (if captures y ''authority'' = None then captures y ''path2''
                   else captures y ''path'')"
      "fragment c = captures y ''fragment''"
    unfolding parseAbsoluteUri_def by (rule createParser_Inr)
  have eq: "absoluteUri = Seq Bol (Seq scheme_re (Seq (Chr CHR '':'')
      (Seq (Alt (cat [Chr CHR ''/'', Chr CHR ''/'', authority_re, path_re]) pathWithoutAuthority)
           (Seq query_re Eol))))"
    by (simp add: absoluteUri_def hierPart_def)
  from y have "y \<in> set (matcher (Seq scheme_re (Seq (Chr CHR '':'')
      (Seq (Alt (cat [Chr CHR ''/'', Chr CHR ''/'', authority_re, path_re]) pathWithoutAuthority)
           (Seq query_re Eol)))) \<lparr>endIndex = 0, rest = s, captures = (\<lambda>k. None)\<rparr>)"
    unfolding eq by (rule exec_Bol_Some)
  from absolute_shape[OF this absoluteUri_names[unfolded hierPart_def] absoluteUri_branches]
  show ?thesis using f by auto
qed

lemma absoluteIri_names:
  "''scheme'' \<in> set (sure (Seq (cp scheme_re) (Seq (Chr (of_char CHR '':'')) (Seq ihierPart (Seq iquery Eol)))))"
  "''fragment'' \<notin> set (names (Seq (cp scheme_re) (Seq (Chr (of_char CHR '':'')) (Seq ihierPart (Seq iquery Eol)))))"
  by code_simp+

lemma absoluteIri_branches:
  "''authority'' \<in> set (sure (Seq (cat [Chr (of_char CHR ''/''), Chr (of_char CHR ''/''), iauthority, ipath]) (Seq iquery Eol)))"
  "''host'' \<in> set (sure (Seq (cat [Chr (of_char CHR ''/''), Chr (of_char CHR ''/''), iauthority, ipath]) (Seq iquery Eol)))"
  "''path'' \<in> set (sure (Seq (cat [Chr (of_char CHR ''/''), Chr (of_char CHR ''/''), iauthority, ipath]) (Seq iquery Eol)))"
  "''path2'' \<in> set (sure (Seq ipathWithoutAuthority (Seq iquery Eol)))"
  "''authority'' \<notin> set (names (Seq (cp scheme_re) (Seq (Chr (of_char CHR '':'')) (Seq ipathWithoutAuthority (Seq iquery Eol)))))"
  by code_simp+

lemma parseAbsoluteIri_fields:
  assumes "parseAbsoluteIri s = Inr c"
  shows "scheme c \<noteq> None \<and> fragment c = None \<and> path c \<noteq> None
         \<and> (authority c \<noteq> None \<longrightarrow> host c \<noteq> None)"
proof -
  from assms obtain y where y: "exec absoluteIri s = Some y"
    and f: "scheme c = captures y ''scheme''" "authority c = captures y ''authority''"
      "host c = captures y ''host''"
      "path c = (if captures y ''authority'' = None then captures y ''path2''
                   else captures y ''path'')"
      "fragment c = captures y ''fragment''"
    unfolding parseAbsoluteIri_def by (rule createParser_Inr)
  have eq: "absoluteIri = Seq Bol (Seq (cp scheme_re) (Seq (Chr (of_char CHR '':''))
      (Seq (Alt (cat [Chr (of_char CHR ''/''), Chr (of_char CHR ''/''), iauthority, ipath]) ipathWithoutAuthority)
           (Seq iquery Eol))))"
    by (simp add: absoluteIri_def ihierPart_def)
  from y have "y \<in> set (matcher (Seq (cp scheme_re) (Seq (Chr (of_char CHR '':''))
      (Seq (Alt (cat [Chr (of_char CHR ''/''), Chr (of_char CHR ''/''), iauthority, ipath]) ipathWithoutAuthority)
           (Seq iquery Eol)))) \<lparr>endIndex = 0, rest = s, captures = (\<lambda>k. None)\<rparr>)"
    unfolding eq by (rule exec_Bol_Some)
  from absolute_shape[OF this absoluteIri_names[unfolded ihierPart_def] absoluteIri_branches]
  show ?thesis using f by auto
qed

section \<open>Where the character \<open>#\<close> can occur\<close>

lemma toLowerChar_hash: "c \<noteq> CHR ''#'' \<Longrightarrow> toLowerChar c \<noteq> CHR ''#''"
proof
  assume c: "c \<noteq> CHR ''#''" and e: "toLowerChar c = CHR ''#''"
  define n where "n = (of_char c :: nat)"
  show False
  proof (cases "CHR ''A'' \<le> c \<and> c \<le> CHR ''Z''")
    case True
    then have r: "65 \<le> n" "n \<le> 90"
      unfolding n_def by (simp_all add: less_eq_char_def)
    from True e have "char_of (n + 32) = CHR ''#''"
      unfolding n_def by (simp add: toLowerChar_def)
    then have "take_bit 8 (n + 32) = (of_char CHR ''#'' :: nat)"
      by (simp only: char_of_eq_iff)
    then have "(n + 32) mod 256 = 35" by (simp add: take_bit_eq_mod)
    moreover have "(n + 32) mod 256 = n + 32" using r by simp
    ultimately show False using r by simp
  next
    case False
    with e c show False by (simp add: toLowerChar_def)
  qed
qed

lemma toUpperChar_hash: "c \<noteq> CHR ''#'' \<Longrightarrow> toUpperChar c \<noteq> CHR ''#''"
proof
  assume c: "c \<noteq> CHR ''#''" and e: "toUpperChar c = CHR ''#''"
  define n where "n = (of_char c :: nat)"
  show False
  proof (cases "CHR ''a'' \<le> c \<and> c \<le> CHR ''z''")
    case True
    then have r: "97 \<le> n" "n \<le> 122"
      unfolding n_def by (simp_all add: less_eq_char_def)
    from True e have "char_of (n - 32) = CHR ''#''"
      unfolding n_def by (simp add: toUpperChar_def)
    then have "take_bit 8 (n - 32) = (of_char CHR ''#'' :: nat)"
      by (simp only: char_of_eq_iff)
    then have "(n - 32) mod 256 = 35" by (simp add: take_bit_eq_mod)
    moreover have "(n - 32) mod 256 = n - 32" using r by simp
    ultimately show False using r by simp
  next
    case False
    with e c show False by (simp add: toUpperChar_def)
  qed
qed

lemma toLowerCase_hash:
  assumes "CHR ''#'' \<notin> set s"
  shows "CHR ''#'' \<notin> set (toLowerCase s)"
proof
  assume "CHR ''#'' \<in> set (toLowerCase s)"
  then obtain c where c: "c \<in> set s" "toLowerChar c = CHR ''#''"
    unfolding toLowerCase_def by (metis imageE list.set_map)
  from c(1) assms have "c \<noteq> CHR ''#''" by blast
  from toLowerChar_hash[OF this] c(2) show False by blast
qed

lemma toUpperCase_hash:
  assumes "CHR ''#'' \<notin> set s"
  shows "CHR ''#'' \<notin> set (toUpperCase s)"
proof
  assume "CHR ''#'' \<in> set (toUpperCase s)"
  then obtain c where c: "c \<in> set s" "toUpperChar c = CHR ''#''"
    unfolding toUpperCase_def by (metis imageE list.set_map)
  from c(1) assms have "c \<noteq> CHR ''#''" by blast
  from toUpperChar_hash[OF this] c(2) show False by blast
qed

lemma removeSegment_set: "set (removeSegment p) \<subseteq> insert CHR ''/'' (set p)"
  using set_drop_subset by (fastforce simp: removeSegment_def split: option.splits)

lemma replaceSegmentWithSlash_set: "set (replaceSegmentWithSlash p) \<subseteq> insert CHR ''/'' (set p)"
  using set_drop_subset by (fastforce simp: replaceSegmentWithSlash_def split: option.splits)

lemma removeLastSegment_set: "set (removeLastSegment p) \<subseteq> set p"
  using set_take_subset by (fastforce simp: removeLastSegment_def split: option.splits)

lemma getSegment_set: "set (getSegment p) \<subseteq> set p"
  using set_take_subset by (fastforce simp: getSegment_def split: option.splits)

lemma removeDotSegmentsLoop_set:
  "set (removeDotSegmentsLoop p out) \<subseteq> insert CHR ''/'' (set p \<union> set out)"
proof (induction p out rule: removeDotSegmentsLoop.induct)
  case (1 p out)
  show ?case
  proof (cases "0 < length p")
    case False
    then show ?thesis by (subst removeDotSegmentsLoop.simps) auto
  next
    case True
    note IH = "1.IH"[OF True]
    consider (a) "test isNoOpSegment p"
      | (b) "\<not> test isNoOpSegment p" "test isSlashDotSegment p"
      | (c) "\<not> test isNoOpSegment p" "\<not> test isSlashDotSegment p" "test isUpSegment p"
      | (d) "\<not> test isNoOpSegment p" "\<not> test isSlashDotSegment p" "\<not> test isUpSegment p"
      by blast
    then show ?thesis
    proof cases
      case a
      have "removeDotSegmentsLoop p out = removeDotSegmentsLoop (removeSegment p) out"
        using True a by (subst removeDotSegmentsLoop.simps) simp
      then show ?thesis using IH(1)[OF a] removeSegment_set[of p] by auto
    next
      case b
      have "removeDotSegmentsLoop p out = removeDotSegmentsLoop (replaceSegmentWithSlash p) out"
        using True b by (subst removeDotSegmentsLoop.simps) simp
      then show ?thesis using IH(2)[OF b] replaceSegmentWithSlash_set[of p] by auto
    next
      case c
      have "removeDotSegmentsLoop p out =
            removeDotSegmentsLoop (replaceSegmentWithSlash p) (removeLastSegment out)"
        using True c by (subst removeDotSegmentsLoop.simps) simp
      then show ?thesis
        using IH(3)[OF c] replaceSegmentWithSlash_set[of p] removeLastSegment_set[of out] by auto
    next
      case d
      have "removeDotSegmentsLoop p out =
            removeDotSegmentsLoop (removeSegment p) (out @ getSegment p)"
        using True d by (subst removeDotSegmentsLoop.simps) simp
      then show ?thesis
        using IH(4)[OF d] removeSegment_set[of p] getSegment_set[of p] by auto
    qed
  qed
qed

lemma removeDotSegments_hash:
  assumes "CHR ''#'' \<notin> set p"
  shows "CHR ''#'' \<notin> set (removeDotSegments p)"
proof
  assume "CHR ''#'' \<in> set (removeDotSegments p)"
  then have "CHR ''#'' \<in> insert CHR ''/'' (set p \<union> set [])"
    using removeDotSegmentsLoop_set[of p "[]"] unfolding removeDotSegments_def by blast
  then have "CHR ''#'' \<in> set p" by simp
  with assms show False by blast
qed

lemma replaceAllFrom_avoid:
  "(\<forall>m. bad \<notin> set m \<longrightarrow> bad \<notin> set (f m)) \<Longrightarrow> bad \<notin> set s \<Longrightarrow>
     bad \<notin> set (replaceAllFrom r f i s)"
proof (induction r f i s rule: replaceAllFrom.induct)
  case (1 r f i s)
  let ?x = "\<lparr>endIndex = i, rest = s, captures = (\<lambda>k. None)\<rparr>"
  have fe: "bad \<notin> set (f [])" using "1.prems"(1) by simp
  show ?case
  proof (cases "matcher r ?x")
    case Nil
    show ?thesis
    proof (cases s)
      case Nil
      with \<open>matcher r ?x = []\<close> show ?thesis by (subst replaceAllFrom.simps) simp
    next
      case (Cons d t)
      with "1.prems"(2) have "bad \<notin> set t" "d \<noteq> bad" by auto
      with "1.IH"(1)[OF \<open>matcher r ?x = []\<close> Cons "1.prems"(1)]
      have "bad \<notin> set (d # replaceAllFrom r f (Suc i) t)" by simp
      then show ?thesis using \<open>matcher r ?x = []\<close> Cons by (subst replaceAllFrom.simps) simp
    qed
  next
    case (Cons y ys)
    then have "y \<in> set (matcher r ?x)" by simp
    from matcher_suffix[OF this] obtain w where w: "s = w @ rest y" by auto
    with "1.prems"(2) have bw: "bad \<notin> set w" "bad \<notin> set (rest y)" by auto
    have tk: "take (length s - length (rest y)) s = w" using w by simp
    show ?thesis
    proof (cases "length (rest y) < length s")
      case True
      from "1.IH"(2)[OF Cons True "1.prems"(1) bw(2)] "1.prems"(1) bw(1)
      have "bad \<notin> set (f w @ replaceAllFrom r f (endIndex y) (rest y))" by simp
      then show ?thesis using Cons True tk by (subst replaceAllFrom.simps) simp
    next
      case False
      show ?thesis
      proof (cases s)
        case Nil
        then show ?thesis using Cons False fe by (subst replaceAllFrom.simps) simp
      next
        case (Cons d t)
        with "1.prems"(2) have "bad \<notin> set t" "d \<noteq> bad" by auto
        with "1.IH"(3)[OF \<open>matcher r ?x = y # ys\<close> False Cons "1.prems"(1)] fe
        have "bad \<notin> set (f [] @ d # replaceAllFrom r f (Suc i) t)" by simp
        then show ?thesis using \<open>matcher r ?x = y # ys\<close> False Cons
          by (subst replaceAllFrom.simps) simp
      qed
    qed
  qed
qed

lemma isAllowedUnescapedInQuery_hash: "isAllowedUnescapedInQuery [c] \<Longrightarrow> c \<noteq> CHR ''#''"
proof
  assume a: "isAllowedUnescapedInQuery [c]" and "c = CHR ''#''"
  have "\<not> isAllowedUnescapedInQuery ''#''" by code_simp
  with a \<open>c = CHR ''#''\<close> show False by simp
qed

lemma isAllowedUnescapedInPath_hash: "isAllowedUnescapedInPath [c] \<Longrightarrow> c \<noteq> CHR ''#''"
proof
  assume a: "isAllowedUnescapedInPath [c]" and "c = CHR ''#''"
  have "\<not> isAllowedUnescapedInPath ''#''" by code_simp
  with a \<open>c = CHR ''#''\<close> show False by simp
qed

lemma percentEncodedToChar_hash:
  assumes "\<And>c. isAllowed [c] \<Longrightarrow> c \<noteq> CHR ''#''" and "CHR ''#'' \<notin> set m"
  shows "CHR ''#'' \<notin> set (percentEncodedToChar isAllowed m)"
proof (cases "isAllowed (fromCharCode (parseInt16 (drop 1 m)))")
  case True
  obtain c where c: "fromCharCode (parseInt16 (drop 1 m)) = [c]"
    by (cases "parseInt16 (drop 1 m)") (simp_all add: fromCharCode_def)
  with True assms(1) have "c \<noteq> CHR ''#''" by simp
  with True c show ?thesis by (simp add: percentEncodedToChar_def Let_def)
next
  case False
  then show ?thesis using toUpperCase_hash[OF assms(2)]
    by (simp add: percentEncodedToChar_def Let_def)
qed

lemma normalizeQuery_hash:
  assumes "CHR ''#'' \<notin> set q"
  shows "CHR ''#'' \<notin> set (normalizeQuery isAllowedUnescapedInQuery q)"
  unfolding normalizeQuery_def replaceAll_def
  by (rule replaceAllFrom_avoid)
     (use assms percentEncodedToChar_hash[OF isAllowedUnescapedInQuery_hash] in blast)+

lemma normalizePath_hash:
  assumes "CHR ''#'' \<notin> set p"
  shows "CHR ''#'' \<notin> set (normalizePath isAllowedUnescapedInPath p)"
  unfolding normalizePath_def replaceAll_def
  by (rule replaceAllFrom_avoid)
     (use removeDotSegments_hash[OF assms] percentEncodedToChar_hash[OF isAllowedUnescapedInPath_hash] in blast)+

definition fieldsAvoid :: "'a \<Rightarrow> 'a components \<Rightarrow> bool" where
  "fieldsAvoid bad c =
     (\<forall>v. scheme c = Some v \<or> authority c = Some v \<or> path c = Some v \<or> query c = Some v
          \<or> fragment c = Some v \<longrightarrow> bad \<notin> set v)"

lemma createParser_avoid:
  assumes p: "createParser (Seq Bol r) ty s = Inr c" and g: "groupsAvoid bad r"
  shows "fieldsAvoid bad c"
proof -
  from p obtain y where y: "exec (Seq Bol r) s = Some y"
    and f: "scheme c = captures y ''scheme''" "authority c = captures y ''authority''"
      "path c = (if captures y ''authority'' = None then captures y ''path2''
                   else captures y ''path'')"
      "query c = captures y ''query''"
      "fragment c = captures y ''fragment''"
    by (rule createParser_Inr)
  have "capsAvoid bad \<lparr>endIndex = 0, rest = s, captures = (\<lambda>k. None)\<rparr>"
    by (simp add: capsAvoid_def)
  from matcher_groupsAvoid[OF exec_Bol_Some[OF y] g this]
  have "\<And>n v. captures y n = Some v \<Longrightarrow> bad \<notin> set v"
    unfolding capsAvoid_def by blast
  then show ?thesis unfolding fieldsAvoid_def f by (metis option.distinct(1))
qed

lemma uriReference_groupsAvoid:
  "groupsAvoid CHR ''#''
     (cat [Alt (Seq scheme_re (Chr CHR '':'')) Eps, hierPart, query_re, fragment_re, Eol])"
  by code_simp

lemma absoluteUri_groupsAvoid:
  "groupsAvoid CHR ''#'' (cat [scheme_re, Chr CHR '':'', hierPart, query_re, Eol])"
  by code_simp

lemma parseUriReference_hash:
  "parseUriReference s = Inr c \<Longrightarrow> fieldsAvoid CHR ''#'' c"
  unfolding parseUriReference_def uriReference_def
  by (rule createParser_avoid[OF _ uriReference_groupsAvoid]) simp

lemma parseAbsoluteUri_hash:
  "parseAbsoluteUri s = Inr c \<Longrightarrow> fieldsAvoid CHR ''#'' c"
  unfolding parseAbsoluteUri_def absoluteUri_def
  by (rule createParser_avoid[OF _ absoluteUri_groupsAvoid]) simp

lemma composeIdentifier_hash:
  assumes c: "composeIdentifier uriStrategy c = Inr out" and a: "fieldsAvoid CHR ''#'' c"
  shows "case fragment c of
           None \<Rightarrow> CHR ''#'' \<notin> set out
         | Some f \<Rightarrow>
             \<exists>pre. out = pre @ ''#'' @ normalizeQuery isAllowedUnescapedInQuery f
                   \<and> CHR ''#'' \<notin> set pre
                   \<and> CHR ''#'' \<notin> set (normalizeQuery isAllowedUnescapedInQuery f)"
proof -
  from c obtain s p where sp: "scheme c = Some s" "path c = Some p"
    by (auto simp: composeIdentifier_def split: option.splits)
  define pre where "pre = toLowerCase s @ '':''
      @ (case authority c of None \<Rightarrow> [] | Some a \<Rightarrow> ''//'' @ toLowerCase a)
      @ normalizePath isAllowedUnescapedInPath p
      @ (case query c of None \<Rightarrow> [] | Some q \<Rightarrow> ''?'' @ normalizeQuery isAllowedUnescapedInQuery q)"
  have out: "out = pre @ (case fragment c of None \<Rightarrow> []
                | Some f \<Rightarrow> ''#'' @ normalizeQuery isAllowedUnescapedInQuery f)"
    using c sp by (auto simp: composeIdentifier_def uriStrategy_def pre_def split: option.splits)
  have 1: "CHR ''#'' \<notin> set (toLowerCase s)"
    using a sp by (intro toLowerCase_hash) (simp add: fieldsAvoid_def)
  have 2: "CHR ''#'' \<notin> set (case authority c of None \<Rightarrow> [] | Some a \<Rightarrow> ''//'' @ toLowerCase a)"
  proof (cases "authority c")
    case None
    then show ?thesis by simp
  next
    case (Some au)
    with a have "CHR ''#'' \<notin> set au" by (simp add: fieldsAvoid_def)
    from toLowerCase_hash[OF this] Some show ?thesis by simp
  qed
  have 3: "CHR ''#'' \<notin> set (normalizePath isAllowedUnescapedInPath p)"
    using a sp by (intro normalizePath_hash) (simp add: fieldsAvoid_def)
  have 4: "CHR ''#'' \<notin> set (case query c of None \<Rightarrow> []
             | Some q \<Rightarrow> ''?'' @ normalizeQuery isAllowedUnescapedInQuery q)"
  proof (cases "query c")
    case None
    then show ?thesis by simp
  next
    case (Some q)
    with a have "CHR ''#'' \<notin> set q" by (simp add: fieldsAvoid_def)
    from normalizeQuery_hash[OF this] Some show ?thesis by simp
  qed
  have pre: "CHR ''#'' \<notin> set pre" using 1 2 3 4 by (simp add: pre_def)
  show ?thesis
  proof (cases "fragment c")
    case None
    with out pre show ?thesis by simp
  next
    case (Some f)
    with a have "CHR ''#'' \<notin> set f" by (simp add: fieldsAvoid_def)
    from normalizeQuery_hash[OF this] out pre Some show ?thesis by auto
  qed
qed

lemma mergePaths_hash:
  assumes "mergePaths p bc = Inr merged" "CHR ''#'' \<notin> set p" "fieldsAvoid CHR ''#'' bc"
  shows "CHR ''#'' \<notin> set merged"
proof (cases "(case authority bc of None \<Rightarrow> False | Some a \<Rightarrow> a \<noteq> []) \<and> path bc = Some []")
  case True
  with assms(1) have "merged = ''/'' @ p" by (simp add: mergePaths_def)
  with assms(2) show ?thesis by simp
next
  case False
  with assms(1) obtain bp where bp: "path bc = Some bp"
    "merged = (case lastIndexOf bp CHR ''/'' of None \<Rightarrow> p | Some position \<Rightarrow> take (position + 1) bp @ p)"
    by (auto simp: mergePaths_def split: option.splits if_splits)
  from bp(1) assms(3) have "CHR ''#'' \<notin> set bp" by (simp add: fieldsAvoid_def)
  then have "\<And>k. CHR ''#'' \<notin> set (take k bp)" by (meson in_set_takeD)
  with assms(2) bp(2) show ?thesis by (simp split: option.splits)
qed

lemma resolveReference_components:
  assumes r: "resolveReference uriStrategy reference base = Inr out"
  shows "\<exists>rc c. parseUriReference reference = Inr rc
           \<and> composeIdentifier uriStrategy c = Inr out
           \<and> fragment c = fragment rc \<and> fieldsAvoid CHR ''#'' c"
proof -
  from r obtain rc where rc: "parseUriReference reference = Inr rc"
    by (auto simp: resolveReference_def uriStrategy_def split: sum.splits)
  have arc: "fieldsAvoid CHR ''#'' rc" by (rule parseUriReference_hash[OF rc])
  show ?thesis
  proof (cases "scheme rc = None")
    case False
    with r rc have "composeIdentifier uriStrategy rc = Inr out"
      by (simp add: resolveReference_def uriStrategy_def)
    with rc arc show ?thesis by blast
  next
    case True
    with r rc obtain bc where bc: "parseAbsoluteUri base = Inr bc"
      by (auto simp: resolveReference_def uriStrategy_def split: sum.splits)
    have abc: "fieldsAvoid CHR ''#'' bc" by (rule parseAbsoluteUri_hash[OF bc])
    show ?thesis
    proof (cases "authority rc = None")
      case False
      with r rc True bc have "composeIdentifier uriStrategy (rc\<lparr>scheme := scheme bc\<rparr>) = Inr out"
        by (simp add: resolveReference_def uriStrategy_def Let_def)
      moreover have "fieldsAvoid CHR ''#'' (rc\<lparr>scheme := scheme bc\<rparr>)"
        using arc abc by (simp add: fieldsAvoid_def)
      ultimately show ?thesis using rc by force
    next
      case noauth: True
      show ?thesis
      proof (cases "path rc = Some []")
        case True
        let ?c = "rc\<lparr>scheme := scheme bc, authority := authority bc, path := path bc,
                     query := (case query rc of None \<Rightarrow> query bc | Some q \<Rightarrow> Some q)\<rparr>"
        from r rc \<open>scheme rc = None\<close> bc noauth True
        have "composeIdentifier uriStrategy ?c = Inr out"
          by (simp add: resolveReference_def uriStrategy_def Let_def)
        moreover have "fieldsAvoid CHR ''#'' ?c"
          using arc abc by (auto simp: fieldsAvoid_def split: option.splits)
        ultimately show ?thesis using rc by force
      next
        case False
        with r rc \<open>scheme rc = None\<close> bc noauth obtain p where p: "path rc = Some p"
          by (auto simp: resolveReference_def uriStrategy_def Let_def split: option.splits)
        from p arc have ap: "CHR ''#'' \<notin> set p" by (simp add: fieldsAvoid_def)
        show ?thesis
        proof (cases "startsWith p ''/''")
          case True
          let ?c = "rc\<lparr>scheme := scheme bc, authority := authority bc\<rparr>"
          from r rc \<open>scheme rc = None\<close> bc noauth False p True
          have "composeIdentifier uriStrategy ?c = Inr out"
            by (simp add: resolveReference_def uriStrategy_def Let_def)
          moreover have "fieldsAvoid CHR ''#'' ?c"
            using arc abc by (simp add: fieldsAvoid_def)
          ultimately show ?thesis using rc by force
        next
          case nostart: False
          with r rc \<open>scheme rc = None\<close> bc noauth False p obtain merged where
            m: "mergePaths p bc = Inr merged"
            "composeIdentifier uriStrategy
               (rc\<lparr>scheme := scheme bc, authority := authority bc, path := Some merged\<rparr>) = Inr out"
            by (auto simp: resolveReference_def uriStrategy_def Let_def split: sum.splits)
          from mergePaths_hash[OF m(1) ap abc] have "CHR ''#'' \<notin> set merged" .
          then have "fieldsAvoid CHR ''#''
               (rc\<lparr>scheme := scheme bc, authority := authority bc, path := Some merged\<rparr>)"
            using arc abc by (simp add: fieldsAvoid_def)
          with m(2) show ?thesis using rc by force
        qed
      qed
    qed
  qed
qed

section \<open>The scan for percent-encoded triplets\<close>

text \<open>
  The triplet pattern is a literal followed by two characters of one class, over
  characters for URIs and over code points for IRIs.
\<close>

definition tripletPattern :: "'a \<Rightarrow> ('a \<times> 'a) list \<Rightarrow> 'a regex" where
  "tripletPattern pc hxs = Seq (Chr pc) (Seq (Cls hxs) (Cls hxs))"

definition hexClass :: "(char \<times> char) list" where
  "hexClass = [(CHR ''a'', CHR ''f''), (CHR ''A'', CHR ''F''), (CHR ''0'', CHR ''9'')]"

definition hexClassI :: "(int \<times> int) list" where
  "hexClassI = map (map_prod of_char of_char) hexClass"

lemma pctEncoded_tripletPattern: "pctEncoded = tripletPattern CHR ''%'' hexClass"
  by (simp add: pctEncoded_def hexdig_def tripletPattern_def hexClass_def)

lemma cp_pctEncoded_tripletPattern:
  "cp pctEncoded = tripletPattern (of_char CHR ''%'') hexClassI"
  by (simp add: cp_def pctEncoded_def hexdig_def tripletPattern_def hexClassI_def hexClass_def)

lemma matcher_triplet_Nil:
  "matcher (tripletPattern pc hxs) \<lparr>endIndex = i, rest = [], captures = cs\<rparr> = []"
  by (simp add: tripletPattern_def)

lemma matcher_triplet_one:
  "matcher (tripletPattern pc hxs) \<lparr>endIndex = i, rest = [c], captures = cs\<rparr> = []"
  by (simp add: tripletPattern_def)

lemma matcher_triplet_two:
  "matcher (tripletPattern pc hxs) \<lparr>endIndex = i, rest = [c, d], captures = cs\<rparr> = []"
  by (simp add: tripletPattern_def)

lemma matcher_triplet_three:
  "matcher (tripletPattern pc hxs) \<lparr>endIndex = i, rest = c1 # c2 # c3 # t, captures = cs\<rparr> =
     (if c1 = pc \<and> inClass hxs c2 \<and> inClass hxs c3
      then [\<lparr>endIndex = Suc (Suc (Suc i)), rest = t, captures = cs\<rparr>] else [])"
  by (simp add: tripletPattern_def)

text \<open>What \<open>replaceAll\<close> does with the triplet pattern, as a plain scan of the string.\<close>

fun pctScan :: "'a \<Rightarrow> ('a \<Rightarrow> bool) \<Rightarrow> ('a list \<Rightarrow> 'a list) \<Rightarrow> 'a list \<Rightarrow> 'a list" where
  "pctScan pc hx f (c1 # c2 # c3 # t) =
     (if c1 = pc \<and> hx c2 \<and> hx c3 then f [c1, c2, c3] @ pctScan pc hx f t
      else c1 # pctScan pc hx f (c2 # c3 # t))"
| "pctScan pc hx f [c1, c2] = [c1, c2]"
| "pctScan pc hx f [c1] = [c1]"
| "pctScan pc hx f [] = []"

lemma replaceAllFrom_triplet:
  "replaceAllFrom (tripletPattern pc hxs) f i s = pctScan pc (inClass hxs) f s"
proof (induction pc "inClass hxs" f s arbitrary: i rule: pctScan.induct)
  case (1 pc f c1 c2 c3 t)
  let ?x = "\<lparr>endIndex = i, rest = c1 # c2 # c3 # t, captures = (\<lambda>k. None)\<rparr>"
  have m: "matcher (tripletPattern pc hxs) ?x =
     (if c1 = pc \<and> inClass hxs c2 \<and> inClass hxs c3
      then [\<lparr>endIndex = Suc (Suc (Suc i)), rest = t, captures = (\<lambda>k. None)\<rparr>] else [])"
    by (rule matcher_triplet_three)
  show ?case
  proof (cases "c1 = pc \<and> inClass hxs c2 \<and> inClass hxs c3")
    case True
    then show ?thesis using m "1.hyps"(1)[OF True]
      by (subst replaceAllFrom.simps) simp
  next
    case False
    then show ?thesis using m "1.hyps"(2)[OF False]
      by (subst replaceAllFrom.simps) auto
  qed
next
  case (2 pc f c1 c2)
  have m2: "matcher (tripletPattern pc hxs)
              \<lparr>endIndex = i, rest = [c1, c2], captures = (\<lambda>k. None)\<rparr> = []"
    by (rule matcher_triplet_two)
  have m1: "matcher (tripletPattern pc hxs)
              \<lparr>endIndex = Suc i, rest = [c2], captures = (\<lambda>k. None)\<rparr> = []"
    by (rule matcher_triplet_one)
  have m0: "matcher (tripletPattern pc hxs)
              \<lparr>endIndex = Suc (Suc i), rest = [], captures = (\<lambda>k. None)\<rparr> = []"
    by (rule matcher_triplet_Nil)
  have "replaceAllFrom (tripletPattern pc hxs) f (Suc (Suc i)) [] = []"
    using m0 by (subst replaceAllFrom.simps) simp
  then have "replaceAllFrom (tripletPattern pc hxs) f (Suc i) [c2] = [c2]"
    using m1 by (subst replaceAllFrom.simps) simp
  then show ?case using m2 by (subst replaceAllFrom.simps) simp
next
  case (3 pc f c1)
  have m1: "matcher (tripletPattern pc hxs)
              \<lparr>endIndex = i, rest = [c1], captures = (\<lambda>k. None)\<rparr> = []"
    by (rule matcher_triplet_one)
  have m0: "matcher (tripletPattern pc hxs)
              \<lparr>endIndex = Suc i, rest = [], captures = (\<lambda>k. None)\<rparr> = []"
    by (rule matcher_triplet_Nil)
  have "replaceAllFrom (tripletPattern pc hxs) f (Suc i) [] = []"
    using m0 by (subst replaceAllFrom.simps) simp
  then show ?case using m1 by (subst replaceAllFrom.simps) simp
next
  case (4 pc f)
  have m0: "matcher (tripletPattern pc hxs)
              \<lparr>endIndex = i, rest = [], captures = (\<lambda>k. None)\<rparr> = []"
    by (rule matcher_triplet_Nil)
  show ?case using m0 by (subst replaceAllFrom.simps) simp
qed

lemma pctScan_triplet:
  assumes h: "hx h1" "hx h2" "\<not> hx pc"
  shows "pctScan pc hx f (pre @ pc # h1 # h2 # post) =
           pctScan pc hx f pre @ f [pc, h1, h2] @ pctScan pc hx f post"
  using h
proof (induction pc hx f pre rule: pctScan.induct)
  case (1 pc hx f c1 c2 c3 t)
  show ?case
  proof (cases "c1 = pc \<and> hx c2 \<and> hx c3")
    case True
    then show ?thesis using "1.IH"(1)[OF True "1.prems"] by simp
  next
    case False
    have e: "pctScan pc hx f (c1 # c2 # c3 # u) = c1 # pctScan pc hx f (c2 # c3 # u)" for u
      using False by (simp only: pctScan.simps if_False)
    show ?thesis using "1.IH"(2)[OF False "1.prems"] by (simp only: append_Cons e)
  qed
next
  case (2 pc hx f c1 c2)
  then show ?case by simp
next
  case (3 pc hx f c1)
  then show ?case by simp
next
  case (4 pc hx f)
  then show ?case by simp
qed

lemma test_triplet:
  "test (tripletPattern pc hxs) [pc, h1, h2] \<longleftrightarrow> inClass hxs h1 \<and> inClass hxs h2"
proof -
  have a: "matcher (tripletPattern pc hxs)
             \<lparr>endIndex = 0, rest = [pc, h1, h2], captures = (\<lambda>k. None)\<rparr> =
      (if inClass hxs h1 \<and> inClass hxs h2
       then [\<lparr>endIndex = Suc (Suc (Suc 0)), rest = [], captures = (\<lambda>k. None)\<rparr>] else [])"
    by (simp add: matcher_triplet_three)
  have b: "matcher (tripletPattern pc hxs)
             \<lparr>endIndex = Suc 0, rest = [h1, h2], captures = (\<lambda>k. None)\<rparr> = []"
    by (rule matcher_triplet_two)
  have c: "matcher (tripletPattern pc hxs)
             \<lparr>endIndex = Suc (Suc 0), rest = [h2], captures = (\<lambda>k. None)\<rparr> = []"
    by (rule matcher_triplet_one)
  have d: "matcher (tripletPattern pc hxs)
             \<lparr>endIndex = Suc (Suc (Suc 0)), rest = [], captures = (\<lambda>k. None)\<rparr> = []"
    by (rule matcher_triplet_Nil)
  show ?thesis by (simp add: test_def exec_def a b c d)
qed

lemma percent_not_hex: "\<not> inClass hexClass CHR ''%''"
  by (simp add: hexClass_def inClass_def)

lemma percent_not_hexI: "\<not> inClass hexClassI (of_char CHR ''%'')"
  by (simp add: hexClassI_def hexClass_def inClass_def)

lemma replaceAll_pctEncoded_triplet:
  assumes "test pctEncoded [CHR ''%'', h1, h2]"
  shows "replaceAll (pre @ CHR ''%'' # h1 # h2 # post) pctEncoded f =
           replaceAll pre pctEncoded f @ f [CHR ''%'', h1, h2] @ replaceAll post pctEncoded f"
proof -
  from assms have h: "inClass hexClass h1" "inClass hexClass h2"
    by (simp_all add: pctEncoded_tripletPattern test_triplet)
  show ?thesis
    unfolding replaceAll_def pctEncoded_tripletPattern replaceAllFrom_triplet
    by (rule pctScan_triplet[where hx = "inClass hexClass", OF h percent_not_hex])
qed

lemma replaceAll_cp_pctEncoded_triplet:
  assumes "test (cp pctEncoded) [of_char CHR ''%'', k1, k2]"
  shows "replaceAll (pre @ of_char CHR ''%'' # k1 # k2 # post) (cp pctEncoded) f =
           replaceAll pre (cp pctEncoded) f @ f [of_char CHR ''%'', k1, k2]
           @ replaceAll post (cp pctEncoded) f"
proof -
  from assms have h: "inClass hexClassI k1" "inClass hexClassI k2"
    by (simp_all add: cp_pctEncoded_tripletPattern test_triplet)
  show ?thesis
    unfolding replaceAll_def cp_pctEncoded_tripletPattern replaceAllFrom_triplet
    by (rule pctScan_triplet[where hx = "inClass hexClassI", OF h percent_not_hexI])
qed

lemma toUpperChar_percent: "toUpperChar CHR ''%'' = CHR ''%''"
  by (simp add: toUpperChar_def)

lemma percentEncodedToChar_triplet:
  "percentEncodedToChar isAllowed [CHR ''%'', h1, h2] =
     (if isAllowed (fromCharCode (parseInt16 [h1, h2])) then fromCharCode (parseInt16 [h1, h2])
      else [CHR ''%'', toUpperChar h1, toUpperChar h2])"
  by (simp add: percentEncodedToChar_def Let_def toUpperCase_def toUpperChar_percent)

lemma percentEncodedToCharI_triplet:
  "percentEncodedToCharI isAllowed [of_char CHR ''%'', k1, k2] =
     (if isAllowed (fromCharCodeI (parseInt16I [k1, k2])) then fromCharCodeI (parseInt16I [k1, k2])
      else [of_char CHR ''%'', toUpperCodePoint k1, toUpperCodePoint k2])"
  by (simp add: percentEncodedToCharI_def Let_def toUpperCaseI_def toUpperCodePoint_def)

lemma normalizeQuery_triplet:
  assumes "test pctEncoded [CHR ''%'', h1, h2]"
  shows "normalizeQuery isAllowed (pre @ CHR ''%'' # h1 # h2 # post) =
           normalizeQuery isAllowed pre
           @ (if isAllowed (fromCharCode (parseInt16 [h1, h2]))
              then fromCharCode (parseInt16 [h1, h2])
              else [CHR ''%'', toUpperChar h1, toUpperChar h2])
           @ normalizeQuery isAllowed post"
  unfolding normalizeQuery_def replaceAll_pctEncoded_triplet[OF assms]
    percentEncodedToChar_triplet ..

lemma normalizeQueryI_triplet:
  assumes "test (cp pctEncoded) [of_char CHR ''%'', k1, k2]"
  shows "normalizeQueryI isAllowed (pre @ of_char CHR ''%'' # k1 # k2 # post) =
           normalizeQueryI isAllowed pre
           @ (if isAllowed (fromCharCodeI (parseInt16I [k1, k2]))
              then fromCharCodeI (parseInt16I [k1, k2])
              else [of_char CHR ''%'', toUpperCodePoint k1, toUpperCodePoint k2])
           @ normalizeQueryI isAllowed post"
  unfolding normalizeQueryI_def replaceAll_cp_pctEncoded_triplet[OF assms]
    percentEncodedToCharI_triplet ..

lemma test_Cls_single: "test (Cls rs) [c] \<longleftrightarrow> inClass rs c"
  by (simp add: test_def exec_def)

lemma test_Cls3_single:
  "test (Alt (Cls a) (Alt (Cls b) (Cls d))) [c] \<longleftrightarrow> inClass a c \<or> inClass b c \<or> inClass d c"
  by (auto simp: test_def exec_def split: if_splits)

lemma inClass_two: "inClass [one a, one b] c \<longleftrightarrow> c = a \<or> c = b"
  by (auto simp: inClass_def one_def)

lemma inClass_four:
  "inClass [one a, one b, one d, one e] c \<longleftrightarrow> c = a \<or> c = b \<or> c = d \<or> c = e"
  by (auto simp: inClass_def one_def)

lemma isAllowedUnescapedInPath_iff:
  "isAllowedUnescapedInPath [c] \<longleftrightarrow>
     test unreserved [c] \<or> test subDelims [c] \<or> c = CHR '':'' \<or> c = CHR ''@''"
  unfolding isAllowedUnescapedInPath_def unreserved_def subDelims_def
  by (simp only: alts.simps test_Cls3_single test_Cls_single inClass_two)

lemma isAllowedUnescapedInQuery_iff:
  "isAllowedUnescapedInQuery [c] \<longleftrightarrow>
     test unreserved [c] \<or> test subDelims [c] \<or> c = CHR '':'' \<or> c = CHR ''@''
       \<or> c = CHR ''/'' \<or> c = CHR ''?''"
  unfolding isAllowedUnescapedInQuery_def unreserved_def subDelims_def
  by (simp only: alts.simps test_Cls3_single test_Cls_single inClass_four)

lemma cp_Cls: "cp (Cls rs) = Cls (map (map_prod of_char of_char) rs)"
  by (simp add: cp_def)

lemma isAllowedUnescapedInIPath_iff:
  "isAllowedUnescapedInIPath [k] \<longleftrightarrow>
     test iunreserved [k] \<or> test (cp subDelims) [k] \<or> k = of_char CHR '':''
       \<or> k = of_char CHR ''@''"
  unfolding isAllowedUnescapedInIPath_def iunreserved_def subDelims_def cp_Cls
  by (simp only: alts.simps test_Cls3_single test_Cls_single inClass_two)

lemma isAllowedUnescapedInIQuery_iff:
  "isAllowedUnescapedInIQuery [k] \<longleftrightarrow>
     test iunreserved [k] \<or> test (cp subDelims) [k] \<or> k = of_char CHR '':''
       \<or> k = of_char CHR ''@'' \<or> k = of_char CHR ''/'' \<or> k = of_char CHR ''?''"
  unfolding isAllowedUnescapedInIQuery_def iunreserved_def subDelims_def cp_Cls
  by (simp only: alts.simps test_Cls3_single test_Cls_single inClass_four)

text \<open>
  Every URI and every IRI has a scheme and a path, so composing its components never
  fails.
\<close>

lemma generic_shape:
  fixes S C B1 B2 T :: "'a::linorder regex"
  assumes y: "y \<in> set (matcher (Seq S (Seq C (Seq (Alt B1 B2) T)))
                  \<lparr>endIndex = 0, rest = s, captures = (\<lambda>k. None)\<rparr>)"
    and sch: "''scheme'' \<in> set (sure (Seq S (Seq C (Seq (Alt B1 B2) T))))"
    and b1: "''authority'' \<in> set (sure (Seq B1 T))" "''path'' \<in> set (sure (Seq B1 T))"
    and b2: "''path2'' \<in> set (sure (Seq B2 T))"
            "''authority'' \<notin> set (names (Seq S (Seq C (Seq B2 T))))"
  shows "captures y ''scheme'' \<noteq> None
         \<and> (captures y ''authority'' \<noteq> None \<longrightarrow> captures y ''path'' \<noteq> None)
         \<and> (captures y ''authority'' = None \<longrightarrow> captures y ''path2'' \<noteq> None)"
proof -
  let ?x = "\<lparr>endIndex = 0, rest = s, captures = (\<lambda>k. None)\<rparr> :: 'a state"
  have 1: "captures y ''scheme'' \<noteq> None" by (rule matcher_sure[OF y sch])
  from y obtain z1 z2 z3 where z: "z1 \<in> set (matcher S ?x)" "z2 \<in> set (matcher C z1)"
    "z3 \<in> set (matcher (Alt B1 B2) z2)" "y \<in> set (matcher T z3)"
    unfolding matcher_Seq_iff by blast
  from z(3) have "z3 \<in> set (matcher B1 z2) \<or> z3 \<in> set (matcher B2 z2)" by simp
  then show ?thesis
  proof
    assume "z3 \<in> set (matcher B1 z2)"
    with z(4) have "y \<in> set (matcher (Seq B1 T) z2)" unfolding matcher_Seq_iff by blast
    from matcher_sure[OF this b1(1)] matcher_sure[OF this b1(2)] 1 show ?thesis by auto
  next
    assume "z3 \<in> set (matcher B2 z2)"
    with z have yy: "y \<in> set (matcher (Seq S (Seq C (Seq B2 T))) ?x)"
      unfolding matcher_Seq_iff by blast
    from z(4) \<open>z3 \<in> set (matcher B2 z2)\<close> have "y \<in> set (matcher (Seq B2 T) z2)"
      unfolding matcher_Seq_iff by blast
    from matcher_sure[OF this b2(1)] matcher_frame[OF yy b2(2)] 1
    show ?thesis by auto
  qed
qed

lemma uri_names:
  "''scheme'' \<in> set (sure (Seq scheme_re (Seq (Chr CHR '':'')
      (Seq (Alt (cat [Chr CHR ''/'', Chr CHR ''/'', authority_re, path_re]) pathWithoutAuthority)
           (cat [query_re, fragment_re, Eol])))))"
  "''authority'' \<in> set (sure (Seq (cat [Chr CHR ''/'', Chr CHR ''/'', authority_re, path_re])
      (cat [query_re, fragment_re, Eol])))"
  "''path'' \<in> set (sure (Seq (cat [Chr CHR ''/'', Chr CHR ''/'', authority_re, path_re])
      (cat [query_re, fragment_re, Eol])))"
  "''path2'' \<in> set (sure (Seq pathWithoutAuthority (cat [query_re, fragment_re, Eol])))"
  "''authority'' \<notin> set (names (Seq scheme_re (Seq (Chr CHR '':'')
      (Seq pathWithoutAuthority (cat [query_re, fragment_re, Eol])))))"
  by code_simp+

lemma iri_names:
  "''scheme'' \<in> set (sure (Seq (cp scheme_re) (Seq (Chr (of_char CHR '':''))
      (Seq (Alt (cat [Chr (of_char CHR ''/''), Chr (of_char CHR ''/''), iauthority, ipath])
                ipathWithoutAuthority)
           (cat [iquery, ifragment, Eol])))))"
  "''authority'' \<in> set (sure (Seq (cat [Chr (of_char CHR ''/''), Chr (of_char CHR ''/''), iauthority, ipath])
      (cat [iquery, ifragment, Eol])))"
  "''path'' \<in> set (sure (Seq (cat [Chr (of_char CHR ''/''), Chr (of_char CHR ''/''), iauthority, ipath])
      (cat [iquery, ifragment, Eol])))"
  "''path2'' \<in> set (sure (Seq ipathWithoutAuthority (cat [iquery, ifragment, Eol])))"
  "''authority'' \<notin> set (names (Seq (cp scheme_re) (Seq (Chr (of_char CHR '':''))
      (Seq ipathWithoutAuthority (cat [iquery, ifragment, Eol])))))"
  by code_simp+

lemma parseUri_scheme_path:
  assumes "parseUri s = Inr c"
  shows "\<exists>sch pth. scheme c = Some sch \<and> path c = Some pth"
proof -
  from assms obtain y where y: "exec uri s = Some y"
    and f: "scheme c = captures y ''scheme''"
      "path c = (if captures y ''authority'' = None then captures y ''path2''
                   else captures y ''path'')"
    unfolding parseUri_def by (rule createParser_Inr)
  have eq: "uri = Seq Bol (Seq scheme_re (Seq (Chr CHR '':'')
      (Seq (Alt (cat [Chr CHR ''/'', Chr CHR ''/'', authority_re, path_re]) pathWithoutAuthority)
           (cat [query_re, fragment_re, Eol]))))"
    by (simp add: uri_def hierPart_def)
  from y have "y \<in> set (matcher (Seq scheme_re (Seq (Chr CHR '':'')
      (Seq (Alt (cat [Chr CHR ''/'', Chr CHR ''/'', authority_re, path_re]) pathWithoutAuthority)
           (cat [query_re, fragment_re, Eol]))))
       \<lparr>endIndex = 0, rest = s, captures = (\<lambda>k. None)\<rparr>)"
    unfolding eq by (rule exec_Bol_Some)
  from generic_shape[OF this uri_names] show ?thesis using f by auto
qed

lemma parseIri_scheme_path:
  assumes "parseIri s = Inr c"
  shows "\<exists>sch pth. scheme c = Some sch \<and> path c = Some pth"
proof -
  from assms obtain y where y: "exec iri s = Some y"
    and f: "scheme c = captures y ''scheme''"
      "path c = (if captures y ''authority'' = None then captures y ''path2''
                   else captures y ''path'')"
    unfolding parseIri_def by (rule createParser_Inr)
  have eq: "iri = Seq Bol (Seq (cp scheme_re) (Seq (Chr (of_char CHR '':''))
      (Seq (Alt (cat [Chr (of_char CHR ''/''), Chr (of_char CHR ''/''), iauthority, ipath])
                ipathWithoutAuthority)
           (cat [iquery, ifragment, Eol]))))"
    by (simp add: iri_def ihierPart_def)
  from y have "y \<in> set (matcher (Seq (cp scheme_re) (Seq (Chr (of_char CHR '':''))
      (Seq (Alt (cat [Chr (of_char CHR ''/''), Chr (of_char CHR ''/''), iauthority, ipath])
                ipathWithoutAuthority)
           (cat [iquery, ifragment, Eol]))))
       \<lparr>endIndex = 0, rest = s, captures = (\<lambda>k. None)\<rparr>)"
    unfolding eq by (rule exec_Bol_Some)
  from generic_shape[OF this iri_names] show ?thesis using f by auto
qed

lemma normalizeUri_composition:
  assumes "parseUri s = Inr c"
  shows "\<exists>sch pth. scheme c = Some sch \<and> path c = Some pth \<and>
           normalizeUri s =
             Inr (toLowerCase sch @ '':''
                  @ (case authority c of None \<Rightarrow> [] | Some a \<Rightarrow> ''//'' @ toLowerCase a)
                  @ stNormalizePath uriStrategy pth
                  @ (case query c of
                       None \<Rightarrow> []
                     | Some q \<Rightarrow> ''?'' @ stNormalizeQuery uriStrategy q)
                  @ (case fragment c of
                       None \<Rightarrow> []
                     | Some f \<Rightarrow> ''#'' @ stNormalizeFragment uriStrategy f))"
proof -
  from parseUri_scheme_path[OF assms] obtain sch pth where
    sp: "scheme c = Some sch" "path c = Some pth" by blast
  have "parse uriStrategy s = Inr c" using assms by (simp add: uriStrategy_def)
  then have "normalizeUri s = composeIdentifier uriStrategy c"
    by (simp add: normalizeUri_def normalize_def)
  with sp show ?thesis by (simp add: composeIdentifier_def)
qed

lemma normalizeIri_composition:
  assumes "parseIri s = Inr c"
  shows "\<exists>sch pth. scheme c = Some sch \<and> path c = Some pth \<and>
           normalizeIri lower s =
             Inr (lower sch @ [of_char CHR '':'']
                  @ (case authority c of
                       None \<Rightarrow> []
                     | Some a \<Rightarrow> [of_char CHR ''/'', of_char CHR ''/''] @ lower a)
                  @ stNormalizePathI iriStrategy pth
                  @ (case query c of
                       None \<Rightarrow> []
                     | Some q \<Rightarrow> [of_char CHR ''?''] @ stNormalizeQueryI iriStrategy q)
                  @ (case fragment c of
                       None \<Rightarrow> []
                     | Some f \<Rightarrow> [of_char CHR ''#''] @ stNormalizeFragmentI iriStrategy f))"
proof -
  from parseIri_scheme_path[OF assms] obtain sch pth where
    sp: "scheme c = Some sch" "path c = Some pth" by blast
  have "parseI iriStrategy s = Inr c" using assms by (simp add: iriStrategy_def)
  then have "normalizeIri lower s = composeIdentifierI lower iriStrategy c"
    by (simp add: normalizeIri_def normalizeI_def)
  with sp show ?thesis by (simp add: composeIdentifierI_def)
qed

lemma uriStrategy_normalizers:
  "stNormalizePath uriStrategy p = normalizeQuery isAllowedUnescapedInPath (removeDotSegments p)"
  "stNormalizeQuery uriStrategy = normalizeQuery isAllowedUnescapedInQuery"
  "stNormalizeFragment uriStrategy = normalizeQuery isAllowedUnescapedInQuery"
  by (simp_all add: uriStrategy_def normalizePath_def normalizeQuery_def)

lemma iriStrategy_normalizers:
  "stNormalizePathI iriStrategy p =
     normalizeQueryI isAllowedUnescapedInIPath (removeDotSegmentsI p)"
  "stNormalizeQueryI iriStrategy = normalizeQueryI isAllowedUnescapedInIQuery"
  "stNormalizeFragmentI iriStrategy = normalizeQueryI isAllowedUnescapedInIQuery"
  by (simp_all add: iriStrategy_def normalizePathI_def normalizeQueryI_def)

section \<open>Properties\<close>

text \<open>
  C1. \<open>normalizeUri\<close> is not idempotent on everything \<open>parseUri\<close> accepts. The
  path is cleared of dot segments before its percent-encoded triplets are decoded, so an
  encoded \<open>..\<close> survives the first pass as a literal \<open>..\<close> and is removed only by
  a second pass. Likewise a path that dot-segment removal leaves starting with \<open>//\<close>
  is read as an authority by the second pass, which then lowercases it.
\<close>

theorem normalizeUri_not_idempotent:
  "normalizeUri ''http://a/b/%2e%2e/c'' = Inr ''http://a/b/../c''
   \<and> normalizeUri ''http://a/b/../c'' = Inr ''http://a/c''
   \<and> normalizeUri ''a:/.//B'' = Inr ''a://B''
   \<and> normalizeUri ''a://B'' = Inr ''a://b''"
  by code_simp

text \<open>
  C2. With the base \<open>http://a/b/c/d;p?q\<close>, resolution gives the results of the
  RFC's table for the references \<open>g\<close>, \<open>./g\<close>, \<open>../g\<close>, \<open>../../../g\<close> (which does not
  climb above the root), \<open>?y\<close> and \<open>#s\<close>.
\<close>

theorem resolveUri_rfc_examples:
  "resolveUri ''g'' ''http://a/b/c/d;p?q'' = Inr ''http://a/b/c/g''
   \<and> resolveUri ''./g'' ''http://a/b/c/d;p?q'' = Inr ''http://a/b/c/g''
   \<and> resolveUri ''../g'' ''http://a/b/c/d;p?q'' = Inr ''http://a/b/g''
   \<and> resolveUri ''../../../g'' ''http://a/b/c/d;p?q'' = Inr ''http://a/g''
   \<and> resolveUri ''?y'' ''http://a/b/c/d;p?q'' = Inr ''http://a/b/c/d;p?y''
   \<and> resolveUri ''#s'' ''http://a/b/c/d;p?q'' = Inr ''http://a/b/c/d;p?q#s''"
  by code_simp

text \<open>
  C3. The base is parsed only when the reference has no scheme of its own. For a
  reference that parses without a scheme, a base that is not an absolute-URI makes
  \<open>resolveUri\<close> fail with \<open>InvalidIdentifier\<close> for the production
  \<open>absolute-URI\<close>; for a reference that carries a scheme the result is the composition
  of the reference's own components, whatever the base is.
\<close>

theorem resolveUri_base_parsed_without_scheme:
  assumes "parseUriReference reference = Inr rc"
  shows "(scheme rc = None \<and> \<not> isAbsoluteUri base \<longrightarrow>
            resolveUri reference base = Inl (InvalidIdentifier ''absolute-URI'' base))
         \<and> (scheme rc \<noteq> None \<longrightarrow>
            resolveUri reference base = composeIdentifier uriStrategy rc)"
proof (intro conjI impI)
  assume a: "scheme rc = None \<and> \<not> isAbsoluteUri base"
  then have "exec absoluteUri base = None" by (simp add: isAbsoluteUri_def test_def)
  then have "parseAbsoluteUri base = Inl (InvalidIdentifier ''absolute-URI'' base)"
    by (simp add: parseAbsoluteUri_def createParser_def)
  with a assms show "resolveUri reference base = Inl (InvalidIdentifier ''absolute-URI'' base)"
    by (simp add: resolveUri_def resolveReference_def uriStrategy_def)
next
  assume "scheme rc \<noteq> None"
  then obtain v where "scheme rc = Some v" by auto
  with assms show "resolveUri reference base = composeIdentifier uriStrategy rc"
    by (simp add: resolveUri_def resolveReference_def uriStrategy_def)
qed

theorem resolveUri_base_witness:
  "parseUriReference ''g'' =
     Inr \<lparr>scheme = None, authority = None, userinfo = None, host = None, port = None,
          path = Some ''g'', query = None, fragment = None\<rparr>
   \<and> \<not> isAbsoluteUri ''//x''
   \<and> resolveUri ''g'' ''//x'' = Inl (InvalidIdentifier ''absolute-URI'' ''//x'')"
proof -
  have p: "parseUriReference ''g'' =
     Inr \<lparr>scheme = None, authority = None, userinfo = None, host = None, port = None,
          path = Some ''g'', query = None, fragment = None\<rparr>"
    by code_simp
  have n: "\<not> isAbsoluteUri ''//x''" by code_simp
  from resolveUri_base_parsed_without_scheme[OF p, of "''//x''"] n
  have "resolveUri ''g'' ''//x'' = Inl (InvalidIdentifier ''absolute-URI'' ''//x'')" by simp
  with p n show ?thesis by blast
qed

text \<open>
  The sentence of the specification does not hold as written: with a reference that
  has a scheme, a base that is not an absolute-URI (here the empty string) is accepted;
  and a base without an authority, such as \<open>a:b\<close>, is an absolute-URI and resolves.
\<close>

theorem resolveUri_base_counterexample:
  "\<not> isAbsoluteUri [] \<and> resolveUri ''http://a/b'' [] = Inr ''http://a/b''
   \<and> isAbsoluteUri ''a:b'' \<and> resolveUri ''g'' ''a:b'' = Inr ''a:g''"
  by code_simp

text \<open>
  C4. Whenever \<open>parseAbsoluteUri\<close> or \<open>parseAbsoluteIri\<close> succeeds, the
  components have a scheme and a path and no fragment, and if they have an authority
  they have a host. The authority itself is optional.
\<close>

theorem parseAbsolute_components:
  "(parseAbsoluteUri s = Inr c \<longrightarrow>
      scheme c \<noteq> None \<and> fragment c = None \<and> path c \<noteq> None
      \<and> (authority c \<noteq> None \<longrightarrow> host c \<noteq> None))
   \<and> (parseAbsoluteIri t = Inr d \<longrightarrow>
      scheme d \<noteq> None \<and> fragment d = None \<and> path d \<noteq> None
      \<and> (authority d \<noteq> None \<longrightarrow> host d \<noteq> None))"
  using parseAbsoluteUri_fields[of s c] parseAbsoluteIri_fields[of t d] by blast

theorem parseAbsolute_components_witness:
  "parseAbsoluteUri ''http://a/b?q'' =
     Inr \<lparr>scheme = Some ''http'', authority = Some ''a'', userinfo = None, host = Some ''a'',
          port = None, path = Some ''/b'', query = Some ''q'', fragment = None\<rparr>
   \<and> parseAbsoluteIri [104, 58, 47, 47, 233] =
     Inr \<lparr>scheme = Some [104], authority = Some [233], userinfo = None, host = Some [233],
          port = None, path = Some [], query = None, fragment = None\<rparr>"
proof -
  have u: "parseAbsoluteUri ''http://a/b?q'' =
     Inr \<lparr>scheme = Some ''http'', authority = Some ''a'', userinfo = None, host = Some ''a'',
          port = None, path = Some ''/b'', query = Some ''q'', fragment = None\<rparr>"
    by code_simp
  have i: "parseAbsoluteIri [104, 58, 47, 47, 233] =
     Inr \<lparr>scheme = Some [104], authority = Some [233], userinfo = None, host = Some [233],
          port = None, path = Some [], query = None, fragment = None\<rparr>"
    by code_simp
  from parseAbsolute_components[of "''http://a/b?q''" _ "[104, 58, 47, 47, 233]"] u i
  show ?thesis by simp
qed

text \<open>
  The sentence of the specification does not hold as written: \<open>a:b\<close> is an
  absolute-URI without an authority.
\<close>

theorem parseAbsoluteUri_authority_counterexample:
  "parseAbsoluteUri ''a:b'' =
     Inr \<lparr>scheme = Some ''a'', authority = None, userinfo = None, host = None, port = None,
          path = Some ''b'', query = None, fragment = None\<rparr>"
  by code_simp

text \<open>
  C5. For a path that starts with \<open>./\<close> or \<open>../\<close> the loop calls
  \<open>removeSegment\<close>, which puts a \<open>/\<close> in front of what follows the prefix: the
  prefix is not dropped but replaced by \<open>/\<close>, and \<open>./g\<close> becomes \<open>/g\<close>.
\<close>

theorem removeDotSegments_dot_prefix:
  "test isNoOpSegment ''./g'' \<and> removeSegment ''./g'' = ''/g''
   \<and> removeDotSegments ''./g'' = ''/g'' \<and> removeDotSegments ''../g'' = ''/g''
   \<and> normalizeUri ''a:./g'' = Inr ''a:/g''"
  by code_simp

text \<open>
  C6. Dot-segment removal turns \<open>/a/b/../c\<close> into \<open>/a/c\<close> and \<open>/a/b/c/..\<close> into
  \<open>/a/b/\<close>.
\<close>

theorem removeDotSegments_examples:
  "removeDotSegments ''/a/b/../c'' = ''/a/c'' \<and> removeDotSegments ''/a/b/c/..'' = ''/a/b/''"
  by code_simp

text \<open>
  C7. In what \<open>normalizeUri\<close> and \<open>normalizeIri\<close> return, the scheme and the
  authority are only put in lower case, and the path, the query and the fragment are
  each passed through the normalizer of the strategy. Such a normalizer treats every
  percent-encoded triplet on its own: the result is the normalized text before it, then
  the triplet's replacement, then the normalized text after it (for the path this is
  said of the text left by dot-segment removal). The replacement is the decoded
  character when that character is permitted unescaped in the component, and otherwise
  the triplet with its digits in upper case. Permitted in a path are the unreserved
  characters of the alphabet (\<open>unreserved\<close> for URIs, \<open>iunreserved\<close> for IRIs), the
  sub-delimiters, \<open>:\<close> and \<open>@\<close>; in a query or fragment also \<open>/\<close> and \<open>?\<close>. The
  examples of the specification hold; \<open>%e9\<close> stays encoded in a URI and is decoded in
  an IRI.
\<close>

theorem percent_triplet_normalization:
  assumes "test pctEncoded [CHR ''%'', h1, h2]"
    and "test (cp pctEncoded) [of_char CHR ''%'', k1, k2]"
  shows
    "(parseUri s = Inr c \<longrightarrow>
       (\<exists>sch pth. scheme c = Some sch \<and> path c = Some pth \<and>
          normalizeUri s =
            Inr (toLowerCase sch @ '':''
                 @ (case authority c of None \<Rightarrow> [] | Some a \<Rightarrow> ''//'' @ toLowerCase a)
                 @ stNormalizePath uriStrategy pth
                 @ (case query c of
                      None \<Rightarrow> []
                    | Some q \<Rightarrow> ''?'' @ stNormalizeQuery uriStrategy q)
                 @ (case fragment c of
                      None \<Rightarrow> []
                    | Some f \<Rightarrow> ''#'' @ stNormalizeFragment uriStrategy f))))
     \<and> stNormalizePath uriStrategy p =
         normalizeQuery isAllowedUnescapedInPath (removeDotSegments p)
     \<and> normalizeQuery isAllowedUnescapedInPath (pre @ CHR ''%'' # h1 # h2 # post) =
         normalizeQuery isAllowedUnescapedInPath pre
         @ (if isAllowedUnescapedInPath (fromCharCode (parseInt16 [h1, h2]))
            then fromCharCode (parseInt16 [h1, h2])
            else [CHR ''%'', toUpperChar h1, toUpperChar h2])
         @ normalizeQuery isAllowedUnescapedInPath post
     \<and> stNormalizeQuery uriStrategy (pre @ CHR ''%'' # h1 # h2 # post) =
         stNormalizeQuery uriStrategy pre
         @ (if isAllowedUnescapedInQuery (fromCharCode (parseInt16 [h1, h2]))
            then fromCharCode (parseInt16 [h1, h2])
            else [CHR ''%'', toUpperChar h1, toUpperChar h2])
         @ stNormalizeQuery uriStrategy post
     \<and> stNormalizeFragment uriStrategy (pre @ CHR ''%'' # h1 # h2 # post) =
         stNormalizeFragment uriStrategy pre
         @ (if isAllowedUnescapedInQuery (fromCharCode (parseInt16 [h1, h2]))
            then fromCharCode (parseInt16 [h1, h2])
            else [CHR ''%'', toUpperChar h1, toUpperChar h2])
         @ stNormalizeFragment uriStrategy post
     \<and> (isAllowedUnescapedInPath [ch] \<longleftrightarrow>
          test unreserved [ch] \<or> test subDelims [ch] \<or> ch = CHR '':'' \<or> ch = CHR ''@'')
     \<and> (isAllowedUnescapedInQuery [ch] \<longleftrightarrow>
          test unreserved [ch] \<or> test subDelims [ch] \<or> ch = CHR '':'' \<or> ch = CHR ''@''
            \<or> ch = CHR ''/'' \<or> ch = CHR ''?'')
     \<and> normalizeUri ''http://a/%7Euser'' = Inr ''http://a/~user''
     \<and> normalizeUri ''http://a/%2f'' = Inr ''http://a/%2F''
     \<and> normalizeUri ''http://a/%2f?%2f%7e%23#%3f%5b'' = Inr ''http://a/%2F?/~%23#?%5B''
     \<and> (parseIri t = Inr d \<longrightarrow>
       (\<exists>sch pth. scheme d = Some sch \<and> path d = Some pth \<and>
          normalizeIri lower t =
            Inr (lower sch @ [of_char CHR '':'']
                 @ (case authority d of
                      None \<Rightarrow> []
                    | Some a \<Rightarrow> [of_char CHR ''/'', of_char CHR ''/''] @ lower a)
                 @ stNormalizePathI iriStrategy pth
                 @ (case query d of
                      None \<Rightarrow> []
                    | Some q \<Rightarrow> [of_char CHR ''?''] @ stNormalizeQueryI iriStrategy q)
                 @ (case fragment d of
                      None \<Rightarrow> []
                    | Some f \<Rightarrow> [of_char CHR ''#''] @ stNormalizeFragmentI iriStrategy f))))
     \<and> stNormalizePathI iriStrategy ip =
         normalizeQueryI isAllowedUnescapedInIPath (removeDotSegmentsI ip)
     \<and> normalizeQueryI isAllowedUnescapedInIPath (ipre @ of_char CHR ''%'' # k1 # k2 # ipost) =
         normalizeQueryI isAllowedUnescapedInIPath ipre
         @ (if isAllowedUnescapedInIPath (fromCharCodeI (parseInt16I [k1, k2]))
            then fromCharCodeI (parseInt16I [k1, k2])
            else [of_char CHR ''%'', toUpperCodePoint k1, toUpperCodePoint k2])
         @ normalizeQueryI isAllowedUnescapedInIPath ipost
     \<and> stNormalizeQueryI iriStrategy (ipre @ of_char CHR ''%'' # k1 # k2 # ipost) =
         stNormalizeQueryI iriStrategy ipre
         @ (if isAllowedUnescapedInIQuery (fromCharCodeI (parseInt16I [k1, k2]))
            then fromCharCodeI (parseInt16I [k1, k2])
            else [of_char CHR ''%'', toUpperCodePoint k1, toUpperCodePoint k2])
         @ stNormalizeQueryI iriStrategy ipost
     \<and> stNormalizeFragmentI iriStrategy (ipre @ of_char CHR ''%'' # k1 # k2 # ipost) =
         stNormalizeFragmentI iriStrategy ipre
         @ (if isAllowedUnescapedInIQuery (fromCharCodeI (parseInt16I [k1, k2]))
            then fromCharCodeI (parseInt16I [k1, k2])
            else [of_char CHR ''%'', toUpperCodePoint k1, toUpperCodePoint k2])
         @ stNormalizeFragmentI iriStrategy ipost
     \<and> (isAllowedUnescapedInIPath [k] \<longleftrightarrow>
          test iunreserved [k] \<or> test (cp subDelims) [k] \<or> k = of_char CHR '':''
            \<or> k = of_char CHR ''@'')
     \<and> (isAllowedUnescapedInIQuery [k] \<longleftrightarrow>
          test iunreserved [k] \<or> test (cp subDelims) [k] \<or> k = of_char CHR '':''
            \<or> k = of_char CHR ''@'' \<or> k = of_char CHR ''/'' \<or> k = of_char CHR ''?'')
     \<and> normalizeUri ''http://a/%e9'' = Inr ''http://a/%E9''
     \<and> stNormalizePathI iriStrategy [47, 37, 101, 57, 37, 50, 102] = [47, 233, 37, 50, 70]"
proof -
  note u = assms(1) and i = assms(2)
  have c1: "parseUri s = Inr c \<longrightarrow>
       (\<exists>sch pth. scheme c = Some sch \<and> path c = Some pth \<and>
          normalizeUri s =
            Inr (toLowerCase sch @ '':''
                 @ (case authority c of None \<Rightarrow> [] | Some a \<Rightarrow> ''//'' @ toLowerCase a)
                 @ stNormalizePath uriStrategy pth
                 @ (case query c of
                      None \<Rightarrow> []
                    | Some q \<Rightarrow> ''?'' @ stNormalizeQuery uriStrategy q)
                 @ (case fragment c of
                      None \<Rightarrow> []
                    | Some f \<Rightarrow> ''#'' @ stNormalizeFragment uriStrategy f)))"
    using normalizeUri_composition[of s c] by blast
  have c2: "parseIri t = Inr d \<longrightarrow>
       (\<exists>sch pth. scheme d = Some sch \<and> path d = Some pth \<and>
          normalizeIri lower t =
            Inr (lower sch @ [of_char CHR '':'']
                 @ (case authority d of
                      None \<Rightarrow> []
                    | Some a \<Rightarrow> [of_char CHR ''/'', of_char CHR ''/''] @ lower a)
                 @ stNormalizePathI iriStrategy pth
                 @ (case query d of
                      None \<Rightarrow> []
                    | Some q \<Rightarrow> [of_char CHR ''?''] @ stNormalizeQueryI iriStrategy q)
                 @ (case fragment d of
                      None \<Rightarrow> []
                    | Some f \<Rightarrow> [of_char CHR ''#''] @ stNormalizeFragmentI iriStrategy f)))"
    using normalizeIri_composition[of t d lower] by blast
  have e1: "normalizeUri ''http://a/%7Euser'' = Inr ''http://a/~user''" by code_simp
  have e2: "normalizeUri ''http://a/%2f'' = Inr ''http://a/%2F''" by code_simp
  have e3: "normalizeUri ''http://a/%2f?%2f%7e%23#%3f%5b'' = Inr ''http://a/%2F?/~%23#?%5B''"
    by code_simp
  have e4: "normalizeUri ''http://a/%e9'' = Inr ''http://a/%E9''" by code_simp
  have e5: "stNormalizePathI iriStrategy [47, 37, 101, 57, 37, 50, 102] = [47, 233, 37, 50, 70]"
    by code_simp
  show ?thesis
    unfolding uriStrategy_normalizers(2,3) iriStrategy_normalizers(2,3)
    using c1 c2 e1 e2 e3 e4 e5
      uriStrategy_normalizers(1)[of p] iriStrategy_normalizers(1)[of ip]
      normalizeQuery_triplet[OF u, of isAllowedUnescapedInPath pre post]
      normalizeQuery_triplet[OF u, of isAllowedUnescapedInQuery pre post]
      normalizeQueryI_triplet[OF i, of isAllowedUnescapedInIPath ipre ipost]
      normalizeQueryI_triplet[OF i, of isAllowedUnescapedInIQuery ipre ipost]
      isAllowedUnescapedInPath_iff[of ch] isAllowedUnescapedInQuery_iff[of ch]
      isAllowedUnescapedInIPath_iff[of k] isAllowedUnescapedInIQuery_iff[of k]
    unfolding uriStrategy_normalizers(2,3) iriStrategy_normalizers(2,3)
    by (intro conjI) assumption+
qed

theorem percent_triplet_witness:
  "test pctEncoded ''%7E'' \<and> test (cp pctEncoded) [37, 101, 57]
   \<and> parseUri ''http://a/%7Euser?%2F#%3f'' =
       Inr \<lparr>scheme = Some ''http'', authority = Some ''a'', userinfo = None, host = Some ''a'',
            port = None, path = Some ''/%7Euser'', query = Some ''%2F'',
            fragment = Some ''%3f''\<rparr>
   \<and> normalizeUri ''http://a/%7Euser?%2F#%3f'' = Inr ''http://a/~user?/#?''
   \<and> stNormalizeQuery uriStrategy ''x%7Ey'' = ''x~y''
   \<and> parseIri [104, 58, 47, 37, 101, 57] =
       Inr \<lparr>scheme = Some [104], authority = None, userinfo = None, host = None,
            port = None, path = Some [47, 37, 101, 57], query = None, fragment = None\<rparr>
   \<and> normalizeIri (\<lambda>x. x) [104, 58, 47, 37, 101, 57] = Inr [104, 58, 47, 233]
   \<and> stNormalizeQueryI iriStrategy [47, 37, 101, 57] = [47, 233]"
proof -
  have h: "test pctEncoded [CHR ''%'', CHR ''7'', CHR ''E'']" by code_simp
  have i: "test (cp pctEncoded) [of_char CHR ''%'', 101, 57]" by code_simp
  have i': "test (cp pctEncoded) [37, 101, 57]" by code_simp
  have pu: "parseUri ''http://a/%7Euser?%2F#%3f'' =
       Inr \<lparr>scheme = Some ''http'', authority = Some ''a'', userinfo = None, host = Some ''a'',
            port = None, path = Some ''/%7Euser'', query = Some ''%2F'',
            fragment = Some ''%3f''\<rparr>"
    by code_simp
  have nu: "normalizeUri ''http://a/%7Euser?%2F#%3f'' = Inr ''http://a/~user?/#?''"
    by code_simp
  have pi: "parseIri [104, 58, 47, 37, 101, 57] =
       Inr \<lparr>scheme = Some [104], authority = None, userinfo = None, host = None,
            port = None, path = Some [47, 37, 101, 57], query = None, fragment = None\<rparr>"
    by code_simp
  have ni: "normalizeIri (\<lambda>x. x) [104, 58, 47, 37, 101, 57] = Inr [104, 58, 47, 233]"
    by code_simp
  note T = percent_triplet_normalization[OF h i, where pre = "''x''" and post = "''y''"
      and ipre = "[47]" and ipost = "[]"]
  have q: "stNormalizeQuery uriStrategy (''x'' @ CHR ''%'' # CHR ''7'' # CHR ''E'' # ''y'') =
         stNormalizeQuery uriStrategy ''x''
         @ (if isAllowedUnescapedInQuery (fromCharCode (parseInt16 [CHR ''7'', CHR ''E'']))
            then fromCharCode (parseInt16 [CHR ''7'', CHR ''E''])
            else [CHR ''%'', toUpperChar CHR ''7'', toUpperChar CHR ''E''])
         @ stNormalizeQuery uriStrategy ''y''"
    by (rule T[THEN conjunct2, THEN conjunct2, THEN conjunct2, THEN conjunct1])
  have qr: "stNormalizeQuery uriStrategy ''x''
         @ (if isAllowedUnescapedInQuery (fromCharCode (parseInt16 [CHR ''7'', CHR ''E'']))
            then fromCharCode (parseInt16 [CHR ''7'', CHR ''E''])
            else [CHR ''%'', toUpperChar CHR ''7'', toUpperChar CHR ''E''])
         @ stNormalizeQuery uriStrategy ''y'' = ''x~y''"
    by code_simp
  have q': "stNormalizeQuery uriStrategy ''x%7Ey'' = ''x~y''"
    using q qr by simp
  have iq: "stNormalizeQueryI iriStrategy [47, 37, 101, 57] = [47, 233]"
    by code_simp
  from h i' pu nu q' pi ni iq show ?thesis by simp
qed

text \<open>
  The sentence of the specification does not hold as written: \<open>!\<close> is not
  unreserved, and its triplet in a path is decoded all the same; and a triplet in the
  authority is not decoded at all, even for an unreserved character, but put in lower
  case with the rest of the authority.
\<close>

theorem percent_unreserved_counterexample:
  "\<not> test unreserved ''!'' \<and> normalizeUri ''http://a/%21'' = Inr ''http://a/!''
   \<and> test unreserved ''~'' \<and> normalizeUri ''http://A%7E/'' = Inr ''http://a%7e/''"
  by code_simp

text \<open>
  C8. When \<open>resolveUri\<close> succeeds, the fragment of the result is the reference's
  alone: the reference parses, and if it has no fragment the result contains no
  \<open>#\<close> at all, while if it has one the result is a part without \<open>#\<close>, then
  \<open>#\<close>, then that fragment normalized (which has no \<open>#\<close> either). Nothing of the
  base can show up as a fragment, whatever the base is.
\<close>

theorem resolveUri_fragment_from_reference:
  assumes "resolveUri reference base = Inr out"
  shows "\<exists>rc. parseUriReference reference = Inr rc \<and>
           (case fragment rc of
              None \<Rightarrow> CHR ''#'' \<notin> set out
            | Some f \<Rightarrow>
                \<exists>pre. out = pre @ ''#'' @ normalizeQuery isAllowedUnescapedInQuery f
                      \<and> CHR ''#'' \<notin> set pre
                      \<and> CHR ''#'' \<notin> set (normalizeQuery isAllowedUnescapedInQuery f))"
proof -
  from assms have "resolveReference uriStrategy reference base = Inr out"
    by (simp add: resolveUri_def)
  from resolveReference_components[OF this] obtain rc c where
    rc: "parseUriReference reference = Inr rc"
    and c: "composeIdentifier uriStrategy c = Inr out" "fragment c = fragment rc"
      "fieldsAvoid CHR ''#'' c"
    by blast
  from composeIdentifier_hash[OF c(1) c(3)] c(2) rc show ?thesis by simp
qed

theorem resolveUri_fragment_witness:
  "resolveUri ''#s'' ''http://a/b/c/d;p?q'' = Inr ''http://a/b/c/d;p?q#s''
   \<and> (\<exists>pre. ''http://a/b/c/d;p?q#s'' = pre @ ''#'' @ normalizeQuery isAllowedUnescapedInQuery ''s''
            \<and> CHR ''#'' \<notin> set pre)"
proof -
  have h: "resolveUri ''#s'' ''http://a/b/c/d;p?q'' = Inr ''http://a/b/c/d;p?q#s''"
    by code_simp
  have p: "parseUriReference ''#s'' =
             Inr \<lparr>scheme = None, authority = None, userinfo = None, host = None, port = None,
                  path = Some [], query = None, fragment = Some ''s''\<rparr>"
    by code_simp
  from resolveUri_fragment_from_reference[OF h] p
  have "\<exists>pre. ''http://a/b/c/d;p?q#s'' = pre @ ''#'' @ normalizeQuery isAllowedUnescapedInQuery ''s''
            \<and> CHR ''#'' \<notin> set pre"
    by auto
  with h show ?thesis by blast
qed

text \<open>
  C9. The reference that \<open>toRelativeUri\<close> computes for the target \<open>http://a/b/x\<close>
  from \<open>http://a/b/c/d\<close> is \<open>../x\<close>, and resolving it against \<open>http://a/b/c/d\<close> gives
  the target back.
\<close>

theorem toRelativeUri_roundtrip_example:
  "toRelativeUri ''http://a/b/c/d'' ''http://a/b/x'' = Inr ''../x''
   \<and> resolveUri ''../x'' ''http://a/b/c/d'' = Inr ''http://a/b/x''"
  by code_simp

text \<open>
  C10. The empty string is a URI-reference: \<open>isUriReference\<close> accepts it, and
  \<open>parseUriReference\<close> returns components whose path is the empty string and whose
  other fields are all absent.
\<close>

theorem empty_is_uriReference:
  "isUriReference [] \<and>
   parseUriReference [] =
     Inr \<lparr>scheme = None, authority = None, userinfo = None, host = None, port = None,
          path = Some [], query = None, fragment = None\<rparr>"
  by code_simp

end
